theory Spec2Isabelle
  imports Complex_Main "HOL-Library.Word" "HOL-Library.Sublist"
begin

section \<open>Data model of bnp.go\<close>

text \<open>
  Go's \<open>float64\<close> columns are only compared (\<open><\<close>, \<open>>=\<close>, \<open>==\<close>) and used as map
  keys. They are modelled as \<open>real\<close>: the finite floats. NaN and the infinities, which a
  text matrix operand of a PDF stream does not produce, are outside the model.
  Go's \<open>int64\<close> is a 64-bit word, so that \<open>+\<close> and unary minus wrap as they do in Go.
  Go strings are byte strings: \<open>string\<close>.
\<close>

type_synonym float64 = real
type_synonym int64 = "64 word"

text \<open>\<open>type Word struct { Column float64; S string }\<close>\<close>

record Word =
  Column :: float64
  S :: string

text \<open>\<open>type Line struct { Value string; Words []Word }\<close>; the field \<open>Value\<close> is
  named \<open>LValue\<close> here since \<open>Op\<close> has a field of the same name.\<close>

record Line =
  LValue :: string
  Words :: "Word list"

text \<open>\<open>type Op struct\<close>, field for field.\<close>

record Op =
  Date :: string
  Source :: string
  SourceCol :: float64
  Value :: int64
  HasValue :: bool
  IsTotal :: bool

text \<open>The zero value \<open>Op{}\<close> of Go.\<close>

definition Op_zero :: Op where
  "Op_zero = \<lparr>Date = [], Source = [], SourceCol = 0, Value = 0, HasValue = False, IsTotal = False\<rparr>"

section \<open>Digits, \<open>strconv.ParseInt\<close> and decimal printing\<close>

definition isDigit :: "char \<Rightarrow> bool" where
  "isDigit c = (48 \<le> (of_char c :: nat) \<and> (of_char c :: nat) \<le> 57)"

definition digitVal :: "char \<Rightarrow> nat" where
  "digitVal c = of_char c - 48"

definition digitChar :: "nat \<Rightarrow> char" where
  "digitChar d = char_of (48 + d)"

text \<open>\<open>reDigits = regexp.MustCompile(`^\d+$`)\<close>: in Go's syntax \<open>\d\<close> is an ASCII digit and
  \<open>$\<close> is the end of the text, so the expression matches the non-empty digit strings.\<close>

definition reDigits :: "string \<Rightarrow> bool" where
  "reDigits s = (s \<noteq> [] \<and> list_all isDigit s)"

text \<open>The number a digit string denotes, most significant digit first.\<close>

definition digitsVal :: "string \<Rightarrow> nat" where
  "digitsVal s = foldl (\<lambda>acc c. acc * 10 + digitVal c) 0 s"

text \<open>\<open>strconv.ParseInt(s, 10, 64)\<close>: an optional sign, then one or more digits; a value
  outside the range of \<open>int64\<close> is an error (\<open>None\<close>).\<close>

definition ParseInt :: "string \<Rightarrow> int64 option" where
  "ParseInt s =
     (case s of
        [] \<Rightarrow> None
      | c # cs \<Rightarrow>
          (let neg = (c = CHR ''-'');
               ds = (if c = CHR ''+'' \<or> c = CHR ''-'' then cs else s)
           in if \<not> reDigits ds then None
              else if neg then (if digitsVal ds \<le> 9223372036854775808 then Some (- of_nat (digitsVal ds)) else None)
              else (if digitsVal ds < 9223372036854775808 then Some (of_nat (digitsVal ds)) else None)))"

text \<open>Decimal printing of a natural number, as \<open>%d\<close> prints a non-negative \<open>int\<close>.\<close>

fun decimal :: "nat \<Rightarrow> string" where
  "decimal n = (if n < 10 then [digitChar n] else decimal (n div 10) @ [digitChar (n mod 10)])"

declare decimal.simps [simp del]

section \<open>The record parser\<close>

text \<open>\<open>stripValue\<close>; the parameter \<open>line\<close> is unused in the source and left out.\<close>

definition stripValue :: "Word list \<Rightarrow> Word list \<times> int64 \<times> bool" where
  "stripValue words =
     (if length words < 3 then (words, 0, False)
      else
        let lw = length words;
            head = S (words ! (lw - 3));
            dot = S (words ! (lw - 2));
            tail = S (words ! (lw - 1))
        in if reDigits head \<and> dot = '','' \<and> reDigits tail \<and> length tail = 2 then
             (let ext = (lw > 4 \<and> S (words ! (lw - 4)) = ''.'' \<and> reDigits (S (words ! (lw - 5))));
                  n = (if ext then 5 else 3);
                  num = (if ext then S (words ! (lw - 5)) @ head @ tail else head @ tail)
              in case ParseInt num of
                   None \<Rightarrow> (words, 0, False)
                 | Some v \<Rightarrow>
                     (take (lw - n) words,
                      if Column (words ! (lw - n)) < 500 then - v else v,
                      True))
           else (words, 0, False))"


text \<open>\<open>stripDate\<close>; the parameter \<open>line\<close> is unused in the source and left out. The
  empty string means that no date was found.\<close>

definition stripDate :: "Word list \<Rightarrow> Word list \<times> string" where
  "stripDate words =
     (if length words < 3 then (words, [])
      else
        let head = S (words ! 0);
            dot = S (words ! 1);
            tail = S (words ! 2)
        in if \<not> reDigits head \<or> dot \<noteq> ''.'' \<or> \<not> reDigits tail then (words, [])
           else (drop 3 words, S (words ! 0) @ S (words ! 1) @ S (words ! 2)))"

text \<open>\<open>strings.Join(parts, " ")\<close> and \<open>joinWords\<close>.\<close>

fun strings_Join :: "string list \<Rightarrow> string \<Rightarrow> string" where
  "strings_Join [] sep = []"
| "strings_Join [p] sep = p"
| "strings_Join (p # q # ps) sep = p @ sep @ strings_Join (q # ps) sep"

definition joinWords :: "Word list \<Rightarrow> string" where
  "joinWords words = strings_Join (map S words) '' ''"

text \<open>
  \<open>reStart = regexp.MustCompile(`^SOLDE\s+.*(\d{2}\.\d{2}\.\d{4})`)\<close> and its
  \<open>FindStringSubmatch\<close>, which returns the text of the group or no match. \<open>\s\<close> is one of
  tab, newline, form feed, carriage return and space; \<open>.\<close> is any character but newline.
  Both repetitions are greedy, and a date starts with a digit, so the group is the last
  date that ends before the first newline after the white space that follows \<open>SOLDE\<close>.
\<close>

definition isSpace :: "char \<Rightarrow> bool" where
  "isSpace c = (c = CHR 0x09 \<or> c = CHR 0x0A \<or> c = CHR 0x0C \<or> c = CHR 0x0D \<or> c = CHR '' '')"

definition reDateHere :: "string \<Rightarrow> bool" where
  "reDateHere s =
     (length s \<ge> 10 \<and> isDigit (s ! 0) \<and> isDigit (s ! 1) \<and> s ! 2 = CHR ''.'' \<and>
      isDigit (s ! 3) \<and> isDigit (s ! 4) \<and> s ! 5 = CHR ''.'' \<and>
      isDigit (s ! 6) \<and> isDigit (s ! 7) \<and> isDigit (s ! 8) \<and> isDigit (s ! 9))"

fun lastDate :: "string \<Rightarrow> string option" where
  "lastDate [] = None"
| "lastDate (c # cs) =
     (case lastDate cs of
        Some d \<Rightarrow> Some d
      | None \<Rightarrow> if reDateHere (c # cs) then Some (take 10 (c # cs)) else None)"

definition reStart :: "string \<Rightarrow> string option" where
  "reStart s =
     (if \<not> prefix ''SOLDE'' s then None
      else
        let rest = drop 5 s
        in if takeWhile isSpace rest = [] then None
           else lastDate (takeWhile (\<lambda>c. c \<noteq> CHR 0x0A) (dropWhile isSpace rest)))"

text \<open>The errors of the program, one constructor for each \<open>fmt.Errorf\<close>, one for the
  error of \<open>time.Parse\<close> and one for a failed read of a stream.\<close>

datatype error =
    CouldNotParseTotalLine string
  | NotEnoughOperations nat
  | FirstNotAccountRecord Op
  | LastNotAccountRecord Op
  | RunningTotalMismatch Op int64
  | OperationWithoutAccountRecord Op
  | TimeParseError string
  | UnknownStreamFilter string
  | CouldNotTokenize string
  | CouldNotParseStream string
  | ReadError string

text \<open>\<open>parseTotalLine\<close> returns \<open>(nil, nil)\<close> (here \<open>Inr None\<close>), an \<open>Op\<close> or an error.\<close>

definition parseTotalLine :: "Line \<Rightarrow> error + Op option" where
  "parseTotalLine line =
     (case reStart (LValue line) of
        None \<Rightarrow> Inr None
      | Some m1 \<Rightarrow>
          (case stripValue (Words line) of
             (w, v, ok) \<Rightarrow>
               if \<not> ok then Inl (CouldNotParseTotalLine (LValue line))
               else Inr (Some \<lparr>Date = m1, Source = joinWords w, SourceCol = - 1, Value = v,
                                HasValue = True, IsTotal = True\<rparr>)))"

text \<open>\<open>parseOpLine\<close> never returns an error; \<open>None\<close> is its \<open>(nil, nil)\<close>.\<close>

definition parseOpLine :: "Line \<Rightarrow> Op option" where
  "parseOpLine line =
     (let op = Op_zero;
          words = Words line
      in case stripDate words of
           (w, date) \<Rightarrow>
             let words = w;
                 op = (if date \<noteq> [] then op\<lparr>Date := date\<rparr> else op)
             in case stripValue words of
                  (w, v, offset) \<Rightarrow>
                    let words = w;
                        op = (if offset then op\<lparr>Value := v, HasValue := True\<rparr> else op)
                    in case stripValue words of
                         (w, v, offset) \<Rightarrow>
                           if offset then None
                           else
                             let op = (if length words > 0
                                       then op\<lparr>SourceCol := Column (words ! 0)\<rparr> else op)
                             in Some (op\<lparr>Source := Source op @ joinWords words\<rparr>))"

text \<open>
  The consolidation step of \<open>parseOps\<close> (the end of the loop body, from \<open>var prev *Op\<close> on).
  \<open>ops\<close> is a slice of pointers and \<open>prev\<close> points to its last element, which no other
  variable refers to: the assignments through \<open>prev\<close> update the last element of the list.
\<close>

definition consolidate :: "Op list \<Rightarrow> Op \<Rightarrow> Op list" where
  "consolidate ops op =
     (if Date op \<noteq> [] then ops @ [op]
      else if ops \<noteq> [] \<and> (HasValue op \<or> Source op \<noteq> []) then
        (let prev = last ops;
             prev = (if HasValue op then prev\<lparr>Value := Value op, HasValue := True\<rparr> else prev);
             prev = (if Source op \<noteq> [] \<and> SourceCol op = SourceCol prev
                     then prev\<lparr>Source := Source prev @ Source op\<rparr> else prev)
         in butlast ops @ [prev])
      else ops)"

text \<open>The loop of \<open>parseOps\<close>, with the slice \<open>ops\<close> as accumulator; \<open>parseOps\<close> starts it
  on the empty slice.\<close>

fun parseOps_loop :: "Op list \<Rightarrow> Line list \<Rightarrow> error + Op list" where
  "parseOps_loop ops [] = Inr ops"
| "parseOps_loop ops (line # lines) =
     (if prefix ''TOTAL DES MONTANTS'' (LValue line) then parseOps_loop ops lines
      else if prefix ''BNP PARIBAS SA : capital de'' (LValue line) \<or>
              prefix ''Montant de votre autorisation'' (LValue line) then Inr ops
      else
        case parseTotalLine line of
          Inl err \<Rightarrow> Inl err
        | Inr r \<Rightarrow>
            (case (case r of None \<Rightarrow> parseOpLine line | Some op \<Rightarrow> Some op) of
               None \<Rightarrow> parseOps_loop ops lines
             | Some op \<Rightarrow> parseOps_loop (consolidate ops op) lines))"

definition parseOps :: "Line list \<Rightarrow> error + Op list" where
  "parseOps lines = parseOps_loop [] lines"

section \<open>The noise filter\<close>

text \<open>A Go map read gives the zero value for a missing key.\<close>

definition mapGet :: "(float64 \<rightharpoonup> int) \<Rightarrow> float64 \<Rightarrow> int" where
  "mapGet cols k = (case cols k of None \<Rightarrow> 0 | Some n \<Rightarrow> n)"

text \<open>The body of the first loop of \<open>filterOnSourceColumn\<close> on the state
  \<open>(cols, maxCol, maxCount)\<close>.\<close>

definition countColumn :: "Op \<Rightarrow> (float64 \<rightharpoonup> int) \<times> float64 \<times> int \<Rightarrow> (float64 \<rightharpoonup> int) \<times> float64 \<times> int" where
  "countColumn op st =
     (case st of
        (cols, maxCol, maxCount) \<Rightarrow>
          if SourceCol op \<ge> 0 then
            (let n = mapGet cols (SourceCol op) + 1
             in if n > maxCount then (cols(SourceCol op \<mapsto> n), SourceCol op, n)
                else (cols(SourceCol op \<mapsto> n), maxCol, maxCount))
          else st)"

definition scanColumns :: "Op list \<Rightarrow> (float64 \<rightharpoonup> int) \<times> float64 \<times> int" where
  "scanColumns ops = fold countColumn ops (Map.empty, - 1, - 1)"

definition dominantColumn :: "Op list \<Rightarrow> float64" where
  "dominantColumn ops = fst (snd (scanColumns ops))"

definition filterOnSourceColumn :: "Op list \<Rightarrow> Op list" where
  "filterOnSourceColumn ops =
     (let maxCol = dominantColumn ops
      in filter (\<lambda>op. SourceCol op < 0 \<or> SourceCol op = maxCol) ops)"


section \<open>Cross-page deduplication\<close>

text \<open>Decimal printing of an \<open>int64\<close>, as \<open>%d\<close> and \<open>%v\<close> print it.\<close>

definition decimalInt :: "int \<Rightarrow> string" where
  "decimalInt i = (if i < 0 then CHR ''-'' # decimal (nat (- i)) else decimal (nat i))"

text \<open>\<open>fmt.Sprintf("%f", v)\<close> for an \<open>int64\<close>: the verb \<open>%f\<close> is not one of the integer
  verbs, and \<open>fmt\<close> prints the bad verb, the type and the value.\<close>

definition Sprintf_f :: "int64 \<Rightarrow> string" where
  "Sprintf_f v = ''%!f(int64='' @ decimalInt (sint v) @ '')''"

definition hashOp :: "Op \<Rightarrow> string" where
  "hashOp op = Date op @ ''-'' @ Source op @ ''-'' @ Sprintf_f (Value op)"

text \<open>The inner loop of \<open>extractPDFOps\<close> over the records of one page. The map
  \<open>seen\<close> only ever stores \<open>true\<close> and a missing key reads as \<open>false\<close>: it is the set of
  its keys.\<close>

fun dedupPage :: "string set \<times> Op list \<Rightarrow> Op list \<Rightarrow> string set \<times> Op list" where
  "dedupPage (seen, allOps) [] = (seen, allOps)"
| "dedupPage (seen, allOps) (op # ops) =
     (let h = hashOp op
      in if h \<in> seen then dedupPage (seen, allOps) ops
         else dedupPage (insert h seen, allOps @ [op]) ops)"

text \<open>The loop of \<open>extractPDFOps\<close> over the pages. What \<open>extractOps\<close> returns for each page
  (its records, or the error of a stream or of the parser) is the input.\<close>

fun extractPDFOps_loop :: "string set \<times> Op list \<Rightarrow> (error + Op list) list \<Rightarrow> error + Op list" where
  "extractPDFOps_loop (seen, allOps) [] = Inr allOps"
| "extractPDFOps_loop (seen, allOps) (page # pages) =
     (case page of
        Inl err \<Rightarrow> Inl err
      | Inr ops \<Rightarrow> extractPDFOps_loop (dedupPage (seen, allOps) ops) pages)"

definition extractPDFOps :: "(error + Op list) list \<Rightarrow> error + Op list" where
  "extractPDFOps pages = extractPDFOps_loop ({}, []) pages"

section \<open>The balance reconciler\<close>

text \<open>A \<open>time.Time\<close> that \<open>time.Parse\<close> returns for the layout \<open>02.01.2006\<close>: midnight UTC
  of a calendar day.\<close>

record Time =
  year :: nat
  month :: nat
  day :: nat

text \<open>\<open>type Value struct { Date time.Time; Source string; Value int64 }\<close>; the record and
  its fields are renamed since \<open>Op\<close> has fields of the same names.\<close>

record AccountValue =
  VDate :: Time
  VSource :: string
  VValue :: int64

definition isLeap :: "nat \<Rightarrow> bool" where
  "isLeap y = (y mod 4 = 0 \<and> (y mod 100 \<noteq> 0 \<or> y mod 400 = 0))"

definition daysIn :: "nat \<Rightarrow> nat \<Rightarrow> nat" where
  "daysIn m y =
     (if m = 2 then (if isLeap y then 29 else 28)
      else if m = 4 \<or> m = 6 \<or> m = 9 \<or> m = 11 then 30 else 31)"

text \<open>
  \<open>time.Parse(dateFormat, v)\<close> with \<open>dateFormat = "02.01.2006"\<close>: two digits of day, a
  dot, two digits of month, a dot, four digits of year and nothing more; the month is
  within 1..12 and the day within the month, or the call fails (\<open>None\<close>).
\<close>

definition time_Parse :: "string \<Rightarrow> Time option" where
  "time_Parse v =
     (if length v = 10 \<and> isDigit (v ! 0) \<and> isDigit (v ! 1) \<and> v ! 2 = CHR ''.'' \<and>
         isDigit (v ! 3) \<and> isDigit (v ! 4) \<and> v ! 5 = CHR ''.'' \<and>
         isDigit (v ! 6) \<and> isDigit (v ! 7) \<and> isDigit (v ! 8) \<and> isDigit (v ! 9)
      then
        (let d = digitsVal (take 2 v);
             m = digitsVal (take 2 (drop 3 v));
             y = digitsVal (drop 6 v)
         in if 1 \<le> m \<and> m \<le> 12 \<and> 1 \<le> d \<and> d \<le> daysIn m y
            then Some \<lparr>year = y, month = m, day = d\<rparr> else None)
      else None)"

text \<open>\<open>t.After(u)\<close> on such times.\<close>

definition After :: "Time \<Rightarrow> Time \<Rightarrow> bool" where
  "After t u =
     (year t > year u \<or> (year t = year u \<and>
        (month t > month u \<or> (month t = month u \<and> day t > day u))))"

text \<open>The date of a change record in \<open>convertOpsToValues\<close> (from
  \<open>prevDate := values[len(values)-1].Date\<close> to the end of the year transition).\<close>

definition resolveDate :: "Time \<Rightarrow> string \<Rightarrow> error + Time" where
  "resolveDate prevDate opDate =
     (let v = opDate @ ''.'' @ decimal (year prevDate)
      in case time_Parse v of
           None \<Rightarrow> Inl (TimeParseError v)
         | Some date \<Rightarrow>
             if After prevDate date then
               (let v' = opDate @ ''.'' @ decimal (year prevDate + 1)
                in case time_Parse v' of
                     None \<Rightarrow> Inl (TimeParseError v')
                   | Some date' \<Rightarrow> Inr date')
             else Inr date)"

text \<open>The loop of \<open>convertOpsToValues\<close> on the state \<open>(values, total)\<close>; the running total is \<open>tot\<close> here.\<close>

fun convert_loop :: "AccountValue list \<Rightarrow> int64 \<Rightarrow> Op list \<Rightarrow> error + AccountValue list" where
  "convert_loop values tot [] = Inr values"
| "convert_loop values tot (op # ops) =
     (if IsTotal op then
        (if Value op \<noteq> tot then Inl (RunningTotalMismatch op tot)
         else case time_Parse (Date op) of
                None \<Rightarrow> Inl (TimeParseError (Date op))
              | Some date \<Rightarrow>
                  convert_loop (values @ [\<lparr>VDate = date, VSource = Source op, VValue = tot\<rparr>])
                    tot ops)
      else
        (let tot = tot + Value op
         in if values = [] then Inl (OperationWithoutAccountRecord op)
            else case resolveDate (VDate (last values)) (Date op) of
                   Inl err \<Rightarrow> Inl err
                 | Inr date \<Rightarrow>
                     convert_loop (values @ [\<lparr>VDate = date, VSource = Source op, VValue = tot\<rparr>])
                       tot ops))"

definition convertOpsToValues :: "Op list \<Rightarrow> error + AccountValue list" where
  "convertOpsToValues ops =
     (if length ops < 2 then Inl (NotEnoughOperations (length ops))
      else if \<not> IsTotal (ops ! 0) then Inl (FirstNotAccountRecord (ops ! 0))
      else if \<not> IsTotal (ops ! (length ops - 1)) then Inl (LastNotAccountRecord (ops ! (length ops - 1)))
      else convert_loop [] (Value (ops ! 0)) ops)"

section \<open>The amount grammar of the specification\<close>

text \<open>
  How the specification writes an amount of \<open>N\<close> minor units as fragments: \<open>H , LL\<close> with
  \<open>LL\<close> the two digits of the cents, or \<open>T . H , LL\<close> with \<open>H\<close> the three digits of the
  hundreds group and \<open>T\<close> the thousands. These are not functions of the program: they
  produce the inputs of the round trip through \<open>stripValue\<close>.
\<close>

definition pad2 :: "nat \<Rightarrow> string" where
  "pad2 n = [digitChar (n div 10), digitChar (n mod 10)]"

definition pad3 :: "nat \<Rightarrow> string" where
  "pad3 n = digitChar (n div 100) # pad2 (n mod 100)"

definition amountFragments3 :: "float64 \<Rightarrow> float64 \<Rightarrow> float64 \<Rightarrow> nat \<Rightarrow> Word list" where
  "amountFragments3 c1 c2 c3 N =
     [\<lparr>Column = c1, S = decimal (N div 100)\<rparr>, \<lparr>Column = c2, S = '',''\<rparr>,
      \<lparr>Column = c3, S = pad2 (N mod 100)\<rparr>]"

definition amountFragments5 ::
  "float64 \<Rightarrow> float64 \<Rightarrow> float64 \<Rightarrow> float64 \<Rightarrow> float64 \<Rightarrow> nat \<Rightarrow> Word list" where
  "amountFragments5 c1 c2 c3 c4 c5 N =
     [\<lparr>Column = c1, S = decimal (N div 100000)\<rparr>, \<lparr>Column = c2, S = ''.''\<rparr>,
      \<lparr>Column = c3, S = pad3 (N div 100 mod 1000)\<rparr>, \<lparr>Column = c4, S = '',''\<rparr>,
      \<lparr>Column = c5, S = pad2 (N mod 100)\<rparr>]"

text \<open>The fragments before an amount end with a thousands group: a digit fragment and a
  dot. \<open>stripValue\<close> then takes five fragments.\<close>

definition thousandsBefore :: "Word list \<Rightarrow> bool" where
  "thousandsBefore pre =
     (2 \<le> length pre \<and> S (pre ! (length pre - 1)) = ''.'' \<and>
      reDigits (S (pre ! (length pre - 2))))"

section \<open>What one step of the reconciler establishes\<close>

text \<open>
  The relation between the previous \<open>Value\<close>, a record and the \<open>Value\<close> that the loop of
  \<open>convertOpsToValues\<close> appends for it: a total record states the balance and carries its
  own date; a change record adds its amount and takes its date from \<open>resolveDate\<close>.
\<close>

definition valueStep :: "AccountValue \<Rightarrow> Op \<Rightarrow> AccountValue \<Rightarrow> bool" where
  "valueStep pv op nv =
     (VSource nv = Source op \<and>
      (if IsTotal op
       then VValue nv = Value op \<and> VValue nv = VValue pv \<and> time_Parse (Date op) = Some (VDate nv)
       else VValue nv = VValue pv + Value op \<and> resolveDate (VDate pv) (Date op) = Inr (VDate nv)))"

section \<open>Example documents\<close>

text \<open>A statement that runs over the end of the year 2020: the balance of 31.12.2020,
  one debit dated \<open>02.01\<close> and the balance of 03.01.2021.\<close>

definition rolloverOps :: "Op list" where
  "rolloverOps =
     [\<lparr>Date = ''31.12.2020'', Source = ''SOLDE CREDITEUR AU 31.12.2020'', SourceCol = - 1,
       Value = 10000, HasValue = True, IsTotal = True\<rparr>,
      \<lparr>Date = ''02.01'', Source = ''PRLV SEPA'', SourceCol = 80,
       Value = - 500, HasValue = True, IsTotal = False\<rparr>,
      \<lparr>Date = ''03.01.2021'', Source = ''SOLDE CREDITEUR AU 03.01.2021'', SourceCol = - 1,
       Value = 9500, HasValue = True, IsTotal = True\<rparr>]"

definition rolloverValues :: "AccountValue list" where
  "rolloverValues =
     [\<lparr>VDate = \<lparr>year = 2020, month = 12, day = 31\<rparr>,
       VSource = ''SOLDE CREDITEUR AU 31.12.2020'', VValue = 10000\<rparr>,
      \<lparr>VDate = \<lparr>year = 2021, month = 1, day = 2\<rparr>, VSource = ''PRLV SEPA'', VValue = 9500\<rparr>,
      \<lparr>VDate = \<lparr>year = 2021, month = 1, day = 3\<rparr>,
       VSource = ''SOLDE CREDITEUR AU 03.01.2021'', VValue = 9500\<rparr>]"

section \<open>Lines and pages used as examples\<close>

text \<open>How \<open>extractStreamLines\<close> builds a \<open>Line\<close> from the fragments of one vertical
  position: \<open>Line{Value: strings.Join(parts, " "), Words: lines[y]}\<close>.\<close>

definition makeLine :: "Word list \<Rightarrow> Line" where
  "makeLine words = \<lparr>LValue = joinWords words, Words = words\<rparr>"

text \<open>A change line with a date, a label and a debit of 10,00, and a line that follows it
  with nothing but a debit of 20,00.\<close>

definition debitLine :: Line where
  "debitLine = makeLine
     [\<lparr>Column = 50, S = ''26''\<rparr>, \<lparr>Column = 58, S = ''.''\<rparr>, \<lparr>Column = 61, S = ''02''\<rparr>,
      \<lparr>Column = 80, S = ''PRLV''\<rparr>,
      \<lparr>Column = 420, S = ''10''\<rparr>, \<lparr>Column = 428, S = '',''\<rparr>, \<lparr>Column = 431, S = ''00''\<rparr>]"

definition amountOnlyLine :: Line where
  "amountOnlyLine = makeLine
     [\<lparr>Column = 420, S = ''20''\<rparr>, \<lparr>Column = 428, S = '',''\<rparr>, \<lparr>Column = 431, S = ''00''\<rparr>]"

text \<open>A line with a date and nothing else.\<close>

definition dateOnlyLine :: Line where
  "dateOnlyLine = makeLine
     [\<lparr>Column = 50, S = ''26''\<rparr>, \<lparr>Column = 58, S = ''.''\<rparr>, \<lparr>Column = 61, S = ''02''\<rparr>]"

text \<open>A change record at a given column, and a total record.\<close>

definition changeAt :: "float64 \<Rightarrow> string \<Rightarrow> Op" where
  "changeAt c src =
     \<lparr>Date = ''26.02'', Source = src, SourceCol = c, Value = - 1000, HasValue = True, IsTotal = False\<rparr>"

definition totalRecord :: Op where
  "totalRecord =
     \<lparr>Date = ''25.02.2015'', Source = ''SOLDE CREDITEUR AU 25.02.2015'', SourceCol = - 1,
      Value = 10000, HasValue = True, IsTotal = True\<rparr>"

section \<open>Counting columns\<close>

text \<open>How many records of a list have the source column \<open>c\<close>: the notion of frequency in
  the description of the noise filter.\<close>

definition colCount :: "Op list \<Rightarrow> float64 \<Rightarrow> nat" where
  "colCount ops c = length (filter (\<lambda>op. SourceCol op = c) ops)"

text \<open>Column \<open>c\<close> is the first to reach the count \<open>m\<close> in a scan from left to right: at
  some record its count becomes \<open>m\<close> while no column has reached \<open>m\<close> before.\<close>

definition reachesFirst :: "Op list \<Rightarrow> float64 \<Rightarrow> nat \<Rightarrow> bool" where
  "reachesFirst ops c m =
     (\<exists>k<length ops. SourceCol (ops ! k) = c \<and> colCount (take (Suc k) ops) c = m \<and>
        (\<forall>c'. 0 \<le> c' \<longrightarrow> colCount (take k ops) c' < m))"

definition debitOp :: Op where
  "debitOp = \<lparr>Date = ''26.02'', Source = ''PRLV'', SourceCol = 80, Value = - 1000,
              HasValue = True, IsTotal = False\<rparr>"

definition amountOnlyOp :: Op where
  "amountOnlyOp = \<lparr>Date = [], Source = [], SourceCol = 0, Value = - 2000,
                   HasValue = True, IsTotal = False\<rparr>"

definition dateOnlyOp :: Op where
  "dateOnlyOp = \<lparr>Date = ''26.02'', Source = [], SourceCol = 0, Value = 0,
                 HasValue = False, IsTotal = False\<rparr>"

text \<open>What the first loop of \<open>filterOnSourceColumn\<close> has established after the records
  \<open>p\<close>: the map holds the count of every column, and \<open>maxCol\<close> is the first column to have
  reached the greatest count \<open>maxCount\<close> (both are \<open>-1\<close> as long as no record has a column).\<close>

definition scanInv :: "Op list \<Rightarrow> (float64 \<rightharpoonup> int) \<times> float64 \<times> int \<Rightarrow> bool" where
  "scanInv p st =
     (case st of (cols, maxCol, maxCount) \<Rightarrow>
        (\<forall>c. 0 \<le> c \<longrightarrow> mapGet cols c = int (colCount p c)) \<and>
        (if \<forall>op\<in>set p. SourceCol op < 0 then maxCol = - 1 \<and> maxCount = - 1
         else 0 \<le> maxCol \<and> maxCount = int (colCount p maxCol) \<and>
              (\<forall>c. 0 \<le> c \<longrightarrow> colCount p c \<le> colCount p maxCol) \<and>
              reachesFirst p maxCol (colCount p maxCol)))"

text \<open>The page of the noise filter example: three change records at column 100, one at
  column 250 and a total record; and a page where columns 250 and 100 both occur twice,
  column 100 reaching two first.\<close>

definition noisyPage :: "Op list" where
  "noisyPage = [changeAt 100 ''A'', changeAt 100 ''B'', changeAt 250 ''X'', changeAt 100 ''C'',
                totalRecord]"

definition tiedPage :: "Op list" where
  "tiedPage = [changeAt 250 ''X'', changeAt 100 ''A'', changeAt 100 ''B'', changeAt 250 ''Y'']"

section \<open>First occurrences of a key\<close>

text \<open>
  The records of a list that are the first with their key, in the order of the list:
  the record at position \<open>i\<close> stays when no record before it has the same key (and, in
  the general form, when its key is not in the set \<open>seen\<close> already). This states what the
  deduplication is to compute; the program computes it with \<open>dedupPage\<close>.
\<close>

definition firstOccurrencesFrom :: "string set \<Rightarrow> Op list \<Rightarrow> Op list" where
  "firstOccurrencesFrom seen ops =
     nths ops {i. i < length ops \<and> hashOp (ops ! i) \<notin> seen \<and>
                  (\<forall>j<i. hashOp (ops ! j) \<noteq> hashOp (ops ! i))}"

definition firstOccurrences :: "Op list \<Rightarrow> Op list" where
  "firstOccurrences ops =
     nths ops {i. i < length ops \<and> (\<forall>j<i. hashOp (ops ! j) \<noteq> hashOp (ops ! i))}"

text \<open>A document of two pages, the second repeating the last three records of the first
  and adding one; and two records that differ in their flags and column only.\<close>

definition firstPage :: "Op list" where
  "firstPage = [totalRecord, changeAt 100 ''A'', changeAt 100 ''B'', changeAt 100 ''C'']"

definition overflowPage :: "Op list" where
  "overflowPage = [changeAt 100 ''A'', changeAt 100 ''B'', changeAt 100 ''C'', changeAt 100 ''D'']"

definition zeroTotal :: Op where
  "zeroTotal = \<lparr>Date = ''25.02.2015'', Source = ''SOLDE'', SourceCol = - 1, Value = 0,
                HasValue = True, IsTotal = True\<rparr>"

definition zeroChange :: Op where
  "zeroChange = \<lparr>Date = ''25.02.2015'', Source = ''SOLDE'', SourceCol = 80, Value = 0,
                 HasValue = False, IsTotal = False\<rparr>"

section \<open>The object graph walker\<close>

text \<open>
  The object graph comes from the package \<open>github.com/pmezard/pdf\<close>, which is not part of
  this repository: \<open>walk\<close> sees it through the methods of \<open>pdf.Value\<close> only. The methods
  that \<open>walk\<close> calls are the fields of the record \<open>PdfValue\<close>, over any type of nodes, and
  every theorem holds for every such record. The identities that \<open>KeyId\<close> and \<open>IndexId\<close>
  return are \<open>uint32\<close>.
\<close>

datatype ValueKind =
  NullKind | BoolKind | IntegerKind | RealKind | StringKind | NameKind | DictKind | ArrayKind
  | StreamKind

record 'n PdfValue =
  Kind :: "'n \<Rightarrow> ValueKind"
  Keys :: "'n \<Rightarrow> string list"
  KeyId :: "'n \<Rightarrow> string \<Rightarrow> 32 word"
  Key :: "'n \<Rightarrow> string \<Rightarrow> 'n"
  Len :: "'n \<Rightarrow> nat"
  IndexId :: "'n \<Rightarrow> nat \<Rightarrow> 32 word"
  Index :: "'n \<Rightarrow> nat \<Rightarrow> 'n"

text \<open>The children that the two loops of \<open>walkNode\<close> go through, each with its identity:
  the entries of a dictionary in the order of \<open>Keys\<close>, the elements of an array by index;
  a value of any other kind has none.\<close>

definition children :: "'n PdfValue \<Rightarrow> 'n \<Rightarrow> (32 word \<times> 'n) list" where
  "children api v =
     (case Kind api v of
        DictKind \<Rightarrow> map (\<lambda>k. (KeyId api v k, Key api v k)) (Keys api v)
      | ArrayKind \<Rightarrow> map (\<lambda>i. (IndexId api v i, Index api v i)) [0..<Len api v]
      | _ \<Rightarrow> [])"

text \<open>
  The body of either loop of \<open>walkNode\<close>, on the state of the closure: the map \<open>seen\<close>
  (a set, its values are empty structs) and the state of the callback. \<open>rec\<close> is the
  recursive call. A child whose identity is in \<open>seen\<close> is skipped (\<open>continue\<close>); otherwise
  the identity is added, the child walked, the identity deleted, and an error returned.
\<close>

fun walkChildren ::
  "('n \<Rightarrow> 32 word set \<times> 's \<Rightarrow> ((32 word set \<times> 's) \<times> 'e option) option) \<Rightarrow>
   (32 word \<times> 'n) list \<Rightarrow> 32 word set \<times> 's \<Rightarrow> ((32 word set \<times> 's) \<times> 'e option) option" where
  "walkChildren rec [] st = Some (st, None)"
| "walkChildren rec ((cid, child) # rest) (seen, s) =
     (if cid \<in> seen then walkChildren rec rest (seen, s)
      else
        case rec child (insert cid seen, s) of
          None \<Rightarrow> None
        | Some ((seen', s'), err) \<Rightarrow>
            (let seen'' = seen' - {cid}
             in case err of
                  Some e \<Rightarrow> Some ((seen'', s'), Some e)
                | None \<Rightarrow> walkChildren rec rest (seen'', s')))"

text \<open>
  \<open>walkNode\<close>. The recursion of the source has no bound that the code states, so the
  model takes fuel: \<open>None\<close> means that the fuel ran out. The callback is a closure (the
  one of \<open>extractOps\<close> appends to a slice): it takes and returns its state. The parameter
  \<open>depth\<close> is unused in the source and left out.
\<close>

primrec walkNode ::
  "nat \<Rightarrow> 'n PdfValue \<Rightarrow> ('n \<Rightarrow> 's \<Rightarrow> 's \<times> 'e option) \<Rightarrow> 'n \<Rightarrow> 32 word set \<times> 's \<Rightarrow>
   ((32 word set \<times> 's) \<times> 'e option) option" where
  "walkNode 0 api callback v st = None"
| "walkNode (Suc fuel) api callback v st =
     (case callback v (snd st) of
        (s', Some err) \<Rightarrow> Some ((fst st, s'), Some err)
      | (s', None) \<Rightarrow> walkChildren (walkNode fuel api callback) (children api v) (fst st, s'))"

text \<open>\<open>walk\<close> starts \<open>walkNode\<close> on the root with an empty map.\<close>

definition walk ::
  "nat \<Rightarrow> 'n PdfValue \<Rightarrow> 'n \<Rightarrow> ('n \<Rightarrow> 's \<Rightarrow> 's \<times> 'e option) \<Rightarrow> 's \<Rightarrow> ('s \<times> 'e option) option" where
  "walk fuel api rootValue callback s =
     (case walkNode fuel api callback rootValue ({}, s) of
        None \<Rightarrow> None
      | Some ((seen, s'), err) \<Rightarrow> Some (s', err))"

text \<open>
  The traversal as the description of the walker has it: a node, then its children
  from first to last, each with all below it, where a child is left out when its identity
  is on the current path and the path grows by the identity of the child below it.
\<close>

function preorder :: "'n PdfValue \<Rightarrow> 32 word set \<Rightarrow> 'n \<Rightarrow> 'n list"
  and preorderChildren :: "'n PdfValue \<Rightarrow> 32 word set \<Rightarrow> (32 word \<times> 'n) list \<Rightarrow> 'n list" where
  "preorder api path v = v # preorderChildren api path (children api v)"
| "preorderChildren api path [] = []"
| "preorderChildren api path ((cid, child) # rest) =
     (if cid \<in> path then [] else preorder api (insert cid path) child) @
     preorderChildren api path rest"
  by pat_completeness auto
termination
proof (relation "measures
    [\<lambda>x. case x of Inl (api, path, v) \<Rightarrow> card (- path) | Inr (api, path, kids) \<Rightarrow> card (- path),
     \<lambda>x. case x of Inl _ \<Rightarrow> Suc 0 | Inr _ \<Rightarrow> 0,
     \<lambda>x. case x of Inl _ \<Rightarrow> 0 | Inr (api, path, kids) \<Rightarrow> length kids]", goal_cases)
  case 1
  show ?case by simp
next
  case (2 api path v)
  show ?case by simp
next
  case (3 api path cid child rest)
  then have "- insert cid path \<subset> - path" by auto
  then have "card (- insert cid path) < card (- path)"
    by (rule psubset_card_mono [rotated]) simp
  then show ?case by simp
next
  case (4 api path cid child rest)
  show ?case by simp
qed

text \<open>Calling the callback on the nodes of a list in order, up to the first error.\<close>

fun visitAll :: "('n \<Rightarrow> 's \<Rightarrow> 's \<times> 'e option) \<Rightarrow> 'n list \<Rightarrow> 's \<Rightarrow> 's \<times> 'e option" where
  "visitAll callback [] s = (s, None)"
| "visitAll callback (v # vs) s =
     (case callback v s of
        (s', Some err) \<Rightarrow> (s', Some err)
      | (s', None) \<Rightarrow> visitAll callback vs s')"


text \<open>
  A graph with shared and cyclic parts. Node 0 is a dictionary with the entries \<open>A\<close>
  (node 1) and \<open>B\<close> (node 2); nodes 1 and 2 both have the entry \<open>C\<close>, the array node 3,
  and node 1 has the entry \<open>Up\<close> that refers to node 1 itself; the array has the stream
  node 4 and itself as elements. Node 5 is a dictionary whose only entry is node 5.
  The identity of an entry is the number of the node it refers to.
\<close>

definition exampleGraph :: "nat PdfValue" where
  "exampleGraph =
     \<lparr>Kind = (\<lambda>n. if n = 0 \<or> n = 1 \<or> n = 2 \<or> n = 5 then DictKind
                  else if n = 3 then ArrayKind else StreamKind),
      Keys = (\<lambda>n. if n = 0 then [''A'', ''B''] else if n = 1 then [''C'', ''Up'']
                  else if n = 2 then [''C''] else if n = 5 then [''Self''] else []),
      KeyId = (\<lambda>n k. if k = ''A'' then 1 else if k = ''B'' then 2 else if k = ''C'' then 3
                    else if k = ''Up'' then 1 else 5),
      Key = (\<lambda>n k. if k = ''A'' then 1 else if k = ''B'' then 2 else if k = ''C'' then 3
                  else if k = ''Up'' then 1 else 5),
      Len = (\<lambda>n. if n = 3 then 2 else 0),
      IndexId = (\<lambda>n i. if i = 0 then 4 else 3),
      Index = (\<lambda>n i. if i = 0 then 4 else 3)\<rparr>"

text \<open>A callback that records the nodes it is called on, and one that fails at a node.\<close>

definition recordVisit :: "nat \<Rightarrow> nat list \<Rightarrow> nat list \<times> string option" where
  "recordVisit v visited = (visited @ [v], None)"

definition failAt :: "nat \<Rightarrow> nat \<Rightarrow> nat list \<Rightarrow> nat list \<times> string option" where
  "failAt bad v visited = (visited @ [v], if v = bad then Some ''failed'' else None)"

section \<open>Digits and numbers\<close>

lemma digitChar_simps:
  "digitChar 0 = CHR ''0''" "digitChar 1 = CHR ''1''" "digitChar (Suc 0) = CHR ''1''"
  "digitChar 2 = CHR ''2''" "digitChar 3 = CHR ''3''" "digitChar 4 = CHR ''4''"
  "digitChar 5 = CHR ''5''" "digitChar 6 = CHR ''6''" "digitChar 7 = CHR ''7''"
  "digitChar 8 = CHR ''8''" "digitChar 9 = CHR ''9''"
  by code_simp+

lemma sint_of_nat_small: "n < 9223372036854775808 \<Longrightarrow> sint (of_nat n :: 64 word) = int n"
proof -
  assume a: "n < 9223372036854775808"
  have "(of_nat n :: 64 word) = word_of_int (int n)" by simp
  then have "sint (of_nat n :: 64 word) = signed_take_bit (LENGTH(64) - 1) (int n)"
    by (simp only: sint_sbintrunc')
  also have "\<dots> = int n"
    using a by (simp add: signed_take_bit_int_eq_self)
  finally show ?thesis .
qed

lemma sint_neg_of_nat_small: "n < 9223372036854775808 \<Longrightarrow> sint (- of_nat n :: 64 word) = - int n"
proof -
  assume a: "n < 9223372036854775808"
  have "(- of_nat n :: 64 word) = word_of_int (- int n)" by simp
  then have "sint (- of_nat n :: 64 word) = signed_take_bit (LENGTH(64) - 1) (- int n)"
    by (simp only: sint_sbintrunc')
  also have "\<dots> = - int n"
    using a by (simp add: signed_take_bit_int_eq_self)
  finally show ?thesis .
qed

lemma digitVal_digitChar: "d < 10 \<Longrightarrow> digitVal (digitChar d) = d"
  by (simp add: digitVal_def digitChar_def)

lemma isDigit_digitChar: "d < 10 \<Longrightarrow> isDigit (digitChar d)"
  by (simp add: isDigit_def digitChar_def)

lemma digitsVal_Nil: "digitsVal [] = 0"
  by (simp add: digitsVal_def)

lemma digitsVal_snoc: "digitsVal (s @ [c]) = digitsVal s * 10 + digitVal c"
  by (simp add: digitsVal_def)

lemma digitsVal_append: "digitsVal (s @ t) = digitsVal s * 10 ^ length t + digitsVal t"
proof (induction t rule: rev_induct)
  case Nil
  show ?case by (simp add: digitsVal_Nil)
next
  case (snoc c t)
  have "digitsVal (s @ t @ [c]) = digitsVal ((s @ t) @ [c])" by simp
  also have "\<dots> = digitsVal (s @ t) * 10 + digitVal c" by (rule digitsVal_snoc)
  finally show ?case using snoc by (simp add: digitsVal_snoc algebra_simps)
qed

lemma decimal_nonempty: "decimal n \<noteq> []"
  by (subst decimal.simps) simp

lemma decimal_digits: "list_all isDigit (decimal n)"
proof (induction n rule: decimal.induct)
  case (1 n)
  show ?case
  proof (cases "n < 10")
    case True
    then show ?thesis by (subst decimal.simps) (simp add: isDigit_digitChar)
  next
    case False
    with 1 show ?thesis by (subst decimal.simps) (simp add: isDigit_digitChar)
  qed
qed

lemma reDigits_decimal: "reDigits (decimal n)"
  by (simp add: reDigits_def decimal_nonempty decimal_digits)

lemma digitsVal_decimal: "digitsVal (decimal n) = n"
proof (induction n rule: decimal.induct)
  case (1 n)
  show ?case
  proof (cases "n < 10")
    case True
    then show ?thesis
      by (subst decimal.simps) (simp add: digitsVal_def digitVal_digitChar)
  next
    case False
    with 1 show ?thesis
      by (subst decimal.simps) (simp add: digitsVal_snoc digitVal_digitChar)
  qed
qed

lemma div10_less: "n < 100 \<Longrightarrow> n div 10 < (10::nat)"
  by (simp add: div_less_iff_less_mult)

lemma div100_less: "n < 1000 \<Longrightarrow> n div 100 < (10::nat)"
  by (simp add: div_less_iff_less_mult)

lemma reDigits_pad2: "n < 100 \<Longrightarrow> reDigits (pad2 n)"
  by (simp add: reDigits_def pad2_def isDigit_digitChar div10_less)

lemma length_pad2: "length (pad2 n) = 2"
  by (simp add: pad2_def)

lemma reDigits_pad3: "n < 1000 \<Longrightarrow> reDigits (pad3 n)"
  using reDigits_pad2 [of "n mod 100"]
  by (simp add: reDigits_def pad3_def isDigit_digitChar div100_less)

lemma digitsVal_pad2: "n < 100 \<Longrightarrow> digitsVal (pad2 n) = n"
  by (simp add: pad2_def digitsVal_def digitVal_digitChar div10_less)

lemma digitsVal_pad3: "n < 1000 \<Longrightarrow> digitsVal (pad3 n) = n"
proof -
  assume n: "n < 1000"
  have "digitsVal (pad3 n) = digitsVal ([digitChar (n div 100)] @ pad2 (n mod 100))"
    by (simp add: pad3_def)
  also have "\<dots> = digitsVal [digitChar (n div 100)] * 10 ^ 2 + digitsVal (pad2 (n mod 100))"
    by (simp only: digitsVal_append length_pad2)
  also have "\<dots> = (n div 100) * 100 + n mod 100"
  proof -
    have "digitsVal [digitChar (n div 100)] = n div 100"
      using n by (simp add: digitsVal_def digitVal_digitChar div100_less)
    then show ?thesis by (simp add: digitsVal_pad2)
  qed
  finally show ?thesis by simp
qed

lemma reDigits_append: "reDigits s \<Longrightarrow> reDigits t \<Longrightarrow> reDigits (s @ t)"
  by (simp add: reDigits_def)

lemma ParseInt_digits:
  assumes "reDigits s"
  shows "ParseInt s = (if digitsVal s < 9223372036854775808 then Some (of_nat (digitsVal s)) else None)"
proof -
  from assms obtain c cs where s: "s = c # cs" and c: "isDigit c"
    by (cases s) (auto simp: reDigits_def)
  from c have "c \<noteq> CHR ''+''" "c \<noteq> CHR ''-''"
    by (auto simp: isDigit_def)
  with assms s show ?thesis
    by (simp add: ParseInt_def)
qed

lemma stripValue_three:
  assumes h: "reDigits hs" and t: "reDigits ts" "length ts = 2"
    and p: "ParseInt (hs @ ts) = Some v"
    and noext: "\<not> thousandsBefore pre"
  shows "stripValue (pre @ [\<lparr>Column = c1, S = hs\<rparr>, \<lparr>Column = c2, S = '',''\<rparr>, \<lparr>Column = c3, S = ts\<rparr>])
           = (pre, if c1 < 500 then - v else v, True)"
proof -
  define ws where "ws = pre @ [\<lparr>Column = c1, S = hs\<rparr>, \<lparr>Column = c2, S = '',''\<rparr>, \<lparr>Column = c3, S = ts\<rparr>]"
  have l: "length ws = length pre + 3" by (simp add: ws_def)
  have l3: "(length pre + 3 < 3) = False" by simp
  have n3: "ws ! (length pre + 3 - 3) = \<lparr>Column = c1, S = hs\<rparr>" by (simp add: ws_def nth_append)
  have n2: "ws ! (length pre + 3 - 2) = \<lparr>Column = c2, S = '',''\<rparr>" by (simp add: ws_def nth_append)
  have n1: "ws ! (length pre + 3 - 1) = \<lparr>Column = c3, S = ts\<rparr>" by (simp add: ws_def nth_append)
  have n4: "2 \<le> length pre \<Longrightarrow> ws ! (length pre + 3 - 4) = pre ! (length pre - 1)" by (simp add: ws_def nth_append)
  have n5: "2 \<le> length pre \<Longrightarrow> ws ! (length pre + 3 - 5) = pre ! (length pre - 2)" by (simp add: ws_def nth_append)
  have ext: "(4 < length pre + 3 \<and> S (ws ! (length pre + 3 - 4)) = ''.'' \<and> reDigits (S (ws ! (length pre + 3 - 5)))) = False"
    using noext n4 n5 by (auto simp: thousandsBefore_def)
  have tk: "take (length pre + 3 - 3) ws = pre" by (simp add: ws_def)
  have "stripValue ws = (pre, if c1 < 500 then - v else v, True)"
    unfolding stripValue_def Let_def l
    by (simp only: l3 ext if_False n3 n2 n1 Word.select_convs h t p simp_thms if_True option.case tk)
  then show ?thesis by (simp only: ws_def)
qed

lemma stripValue_five:
  assumes th: "reDigits th" and h: "reDigits hs" and t: "reDigits ts" "length ts = 2"
    and p: "ParseInt (th @ hs @ ts) = Some v"
  shows "stripValue (pre @ [\<lparr>Column = c1, S = th\<rparr>, \<lparr>Column = c2, S = ''.''\<rparr>,
            \<lparr>Column = c3, S = hs\<rparr>, \<lparr>Column = c4, S = '',''\<rparr>, \<lparr>Column = c5, S = ts\<rparr>])
           = (pre, if c1 < 500 then - v else v, True)"
proof -
  define ws where "ws = pre @ [\<lparr>Column = c1, S = th\<rparr>, \<lparr>Column = c2, S = ''.''\<rparr>,
            \<lparr>Column = c3, S = hs\<rparr>, \<lparr>Column = c4, S = '',''\<rparr>, \<lparr>Column = c5, S = ts\<rparr>]"
  have l: "length ws = length pre + 5" by (simp add: ws_def)
  have l3: "(length pre + 5 < 3) = False" by simp
  have l4: "(4 < length pre + 5) = True" by simp
  have n3: "ws ! (length pre + 5 - 3) = \<lparr>Column = c3, S = hs\<rparr>" by (simp add: ws_def nth_append)
  have n2: "ws ! (length pre + 5 - 2) = \<lparr>Column = c4, S = '',''\<rparr>" by (simp add: ws_def nth_append)
  have n1: "ws ! (length pre + 5 - 1) = \<lparr>Column = c5, S = ts\<rparr>" by (simp add: ws_def nth_append)
  have n4: "ws ! (length pre + 5 - 4) = \<lparr>Column = c2, S = ''.''\<rparr>" by (simp add: ws_def nth_append)
  have n5: "ws ! (length pre + 5 - 5) = \<lparr>Column = c1, S = th\<rparr>" by (simp add: ws_def nth_append)
  have tk: "take (length pre + 5 - 5) ws = pre" by (simp add: ws_def)
  have "stripValue ws = (pre, if c1 < 500 then - v else v, True)"
    unfolding stripValue_def Let_def l
    by (simp only: l3 l4 if_False n5 n4 n3 n2 n1 Word.select_convs th h t p simp_thms if_True option.case tk)
  then show ?thesis by (simp only: ws_def)
qed


lemma digitsVal_HLL: "digitsVal (decimal (N div 100) @ pad2 (N mod 100)) = N"
  by (simp add: digitsVal_append length_pad2 digitsVal_decimal digitsVal_pad2)

lemma regroup_thousands: "(a::nat) div 1000 * 100000 + a mod 1000 * 100 = a * 100"
proof -
  have "a * 100 = (a div 1000 * 1000 + a mod 1000) * 100" by simp
  also have "\<dots> = a div 1000 * 100000 + a mod 1000 * 100"
    by (simp only: distrib_right mult.assoc)
  finally show ?thesis by simp
qed

lemma split_THLL: "(N::nat) div 100000 * 100000 + (N div 100 mod 1000 * 100 + N mod 100) = N"
proof -
  have a: "N div 100000 = N div 100 div 1000" by (simp add: div_mult2_eq)
  have "N div 100000 * 100000 + (N div 100 mod 1000 * 100 + N mod 100)
      = (N div 100 div 1000 * 100000 + N div 100 mod 1000 * 100) + N mod 100"
    unfolding a by simp
  also have "\<dots> = N div 100 * 100 + N mod 100" by (simp only: regroup_thousands)
  also have "\<dots> = N" by simp
  finally show ?thesis .
qed

lemma digitsVal_THLL:
  "digitsVal (decimal (N div 100000) @ pad3 (N div 100 mod 1000) @ pad2 (N mod 100)) = N"
proof -
  have "digitsVal (pad3 (N div 100 mod 1000) @ pad2 (N mod 100)) =
          (N div 100 mod 1000) * 100 + N mod 100"
    by (simp add: digitsVal_append length_pad2 digitsVal_pad3 digitsVal_pad2)
  moreover have "length (pad3 (N div 100 mod 1000) @ pad2 (N mod 100)) = 5"
    by (simp add: pad3_def pad2_def)
  ultimately have "digitsVal (decimal (N div 100000) @ pad3 (N div 100 mod 1000) @ pad2 (N mod 100)) =
          (N div 100000) * 100000 + ((N div 100 mod 1000) * 100 + N mod 100)"
    by (simp add: digitsVal_append [of "decimal (N div 100000)"] digitsVal_decimal)
  then show ?thesis by (simp only: split_THLL)
qed

text \<open>
  C4. An amount of \<open>N\<close> minor units (\<open>N\<close> within \<open>int64\<close>) written as the fragments
  \<open>H , LL\<close> (no thousands group before them) or \<open>T . H , LL\<close> at the end of a line:
  \<open>stripValue\<close> succeeds, strips exactly these fragments, and returns \<open>N\<close> with the sign
  of the column of the first fragment it consumed: \<open>- N\<close> when that column is below 500,
  \<open>N\<close> otherwise.
\<close>

theorem stripValue_roundtrip:
  assumes N: "N < 9223372036854775808"
  shows "(\<not> thousandsBefore pre \<longrightarrow>
           fst (stripValue (pre @ amountFragments3 c1 c2 c3 N)) = pre \<and>
           sint (fst (snd (stripValue (pre @ amountFragments3 c1 c2 c3 N)))) =
             (if c1 < 500 then - int N else int N) \<and>
           snd (snd (stripValue (pre @ amountFragments3 c1 c2 c3 N)))) \<and>
         fst (stripValue (pre @ amountFragments5 d1 d2 d3 d4 d5 N)) = pre \<and>
         sint (fst (snd (stripValue (pre @ amountFragments5 d1 d2 d3 d4 d5 N)))) =
           (if d1 < 500 then - int N else int N) \<and>
         snd (snd (stripValue (pre @ amountFragments5 d1 d2 d3 d4 d5 N)))"
proof -
  have m2: "N mod 100 < 100" and m3: "N div 100 mod 1000 < 1000" by simp_all
  have p3: "ParseInt (decimal (N div 100) @ pad2 (N mod 100)) = Some (of_nat N)"
    using N by (simp add: ParseInt_digits reDigits_append reDigits_decimal reDigits_pad2 digitsVal_HLL)
  have p5: "ParseInt (decimal (N div 100000) @ pad3 (N div 100 mod 1000) @ pad2 (N mod 100)) =
              Some (of_nat N)"
    using N by (simp add: ParseInt_digits reDigits_append reDigits_decimal reDigits_pad2
        reDigits_pad3 digitsVal_THLL)
  have s3: "stripValue (pre @ amountFragments3 c1 c2 c3 N) =
              (pre, if c1 < 500 then - of_nat N else of_nat N, True)"
    if "\<not> thousandsBefore pre"
    unfolding amountFragments3_def
    by (rule stripValue_three [OF reDigits_decimal reDigits_pad2 [OF m2] length_pad2 p3 that])
  have s5: "stripValue (pre @ amountFragments5 d1 d2 d3 d4 d5 N) =
              (pre, if d1 < 500 then - of_nat N else of_nat N, True)"
    unfolding amountFragments5_def
    by (rule stripValue_five [OF reDigits_decimal reDigits_pad3 [OF m3] reDigits_pad2 [OF m2]
          length_pad2 p5])
  show ?thesis
    using s3 s5 N by (simp add: sint_of_nat_small sint_neg_of_nat_small)
qed

theorem stripValue_roundtrip_witness:
  "(1234567 :: nat) < 9223372036854775808 \<and>
   \<not> thousandsBefore [\<lparr>Column = 80, S = ''VIREMENT''\<rparr>] \<and>
   fst (stripValue [\<lparr>Column = 80, S = ''VIREMENT''\<rparr>, \<lparr>Column = 420, S = ''12345''\<rparr>,
               \<lparr>Column = 440, S = '',''\<rparr>, \<lparr>Column = 445, S = ''67''\<rparr>]) =
     [\<lparr>Column = 80, S = ''VIREMENT''\<rparr>] \<and>
   sint (fst (snd (stripValue [\<lparr>Column = 80, S = ''VIREMENT''\<rparr>, \<lparr>Column = 420, S = ''12345''\<rparr>,
               \<lparr>Column = 440, S = '',''\<rparr>, \<lparr>Column = 445, S = ''67''\<rparr>]))) = - 1234567 \<and>
   snd (snd (stripValue [\<lparr>Column = 80, S = ''VIREMENT''\<rparr>, \<lparr>Column = 420, S = ''12345''\<rparr>,
               \<lparr>Column = 440, S = '',''\<rparr>, \<lparr>Column = 445, S = ''67''\<rparr>])) \<and>
   fst (stripValue [\<lparr>Column = 80, S = ''VIREMENT''\<rparr>, \<lparr>Column = 520, S = ''12''\<rparr>,
               \<lparr>Column = 530, S = ''.''\<rparr>, \<lparr>Column = 535, S = ''345''\<rparr>,
               \<lparr>Column = 550, S = '',''\<rparr>, \<lparr>Column = 555, S = ''67''\<rparr>]) =
     [\<lparr>Column = 80, S = ''VIREMENT''\<rparr>] \<and>
   sint (fst (snd (stripValue [\<lparr>Column = 80, S = ''VIREMENT''\<rparr>, \<lparr>Column = 520, S = ''12''\<rparr>,
               \<lparr>Column = 530, S = ''.''\<rparr>, \<lparr>Column = 535, S = ''345''\<rparr>,
               \<lparr>Column = 550, S = '',''\<rparr>, \<lparr>Column = 555, S = ''67''\<rparr>]))) = 1234567 \<and>
   snd (snd (stripValue [\<lparr>Column = 80, S = ''VIREMENT''\<rparr>, \<lparr>Column = 520, S = ''12''\<rparr>,
               \<lparr>Column = 530, S = ''.''\<rparr>, \<lparr>Column = 535, S = ''345''\<rparr>,
               \<lparr>Column = 550, S = '',''\<rparr>, \<lparr>Column = 555, S = ''67''\<rparr>]))"
proof -
  have d: "decimal 12345 = ''12345''" "decimal 12 = ''12''"
    by (simp_all add: decimal.simps digitChar_simps)
  have f3: "amountFragments3 420 440 445 1234567 =
      [\<lparr>Column = 420, S = ''12345''\<rparr>, \<lparr>Column = 440, S = '',''\<rparr>, \<lparr>Column = 445, S = ''67''\<rparr>]"
    by (simp add: amountFragments3_def pad2_def d digitChar_simps)
  have f5: "amountFragments5 520 530 535 550 555 1234567 =
      [\<lparr>Column = 520, S = ''12''\<rparr>, \<lparr>Column = 530, S = ''.''\<rparr>, \<lparr>Column = 535, S = ''345''\<rparr>,
       \<lparr>Column = 550, S = '',''\<rparr>, \<lparr>Column = 555, S = ''67''\<rparr>]"
    by (simp add: amountFragments5_def pad3_def pad2_def d digitChar_simps)
  have nb: "\<not> thousandsBefore [\<lparr>Column = 80, S = ''VIREMENT''\<rparr>]"
    by (simp add: thousandsBefore_def)
  have "(1234567 :: nat) < 9223372036854775808" by simp
  from stripValue_roundtrip [OF this, of "[\<lparr>Column = 80, S = ''VIREMENT''\<rparr>]" 420 440 445 520 530 535 550 555]
  show ?thesis
    unfolding f3 f5 using nb by simp
qed

lemmas eval_simps =
  stripValue_def stripDate_def reDigits_def isDigit_def ParseInt_def digitsVal_def digitVal_def
  Let_def parseOpLine_def Op_zero_def joinWords_def parseTotalLine_def reStart_def isSpace_def
  reDateHere_def parseOps_def consolidate_def time_Parse_def resolveDate_def After_def
  daysIn_def isLeap_def decimal.simps digitChar_simps

section \<open>The record parser\<close>

text \<open>
  C1, as the code has it. A record without a date that supplies an amount is never
  appended. When a record has been appended before, the last appended record takes the
  amount and is marked as having one, whether or not it had an amount already; nothing
  else of it changes but the source text, which grows by the text of the record when
  that has text in the same column. With nothing appended yet the record is dropped.
\<close>

theorem consolidate_adopts_amount:
  assumes "Date op = []" and "HasValue op"
  shows "(ops = [] \<longrightarrow> consolidate ops op = []) \<and>
         (ops \<noteq> [] \<longrightarrow>
            length (consolidate ops op) = length ops \<and>
            butlast (consolidate ops op) = butlast ops \<and>
            Value (last (consolidate ops op)) = Value op \<and>
            HasValue (last (consolidate ops op)) \<and>
            Date (last (consolidate ops op)) = Date (last ops) \<and>
            SourceCol (last (consolidate ops op)) = SourceCol (last ops) \<and>
            IsTotal (last (consolidate ops op)) = IsTotal (last ops) \<and>
            Source (last (consolidate ops op)) =
              (if Source op \<noteq> [] \<and> SourceCol op = SourceCol (last ops)
               then Source (last ops) @ Source op else Source (last ops)))"
  using assms by (simp add: consolidate_def Let_def)

theorem consolidate_adopts_amount_witness:
  "Date amountOnlyOp = [] \<and> HasValue amountOnlyOp \<and> [debitOp] \<noteq> [] \<and>
   consolidate [] amountOnlyOp = [] \<and>
   HasValue (last [debitOp]) \<and>
   Value (last (consolidate [debitOp] amountOnlyOp)) = Value amountOnlyOp \<and>
   HasValue (last (consolidate [debitOp] amountOnlyOp)) \<and>
   Source (last (consolidate [debitOp] amountOnlyOp)) = Source debitOp"
  using consolidate_adopts_amount [of amountOnlyOp "[debitOp]"]
    consolidate_adopts_amount [of amountOnlyOp "[]"]
  by (simp add: amountOnlyOp_def debitOp_def)

text \<open>
  The claim C1 as it is stated fails: the line \<open>debitLine\<close> alone gives a record with the
  amount -10,00; followed by a line that holds only the amount 20,00, the same record
  ends with the amount -20,00.
\<close>

theorem consolidate_overwrites_amount:
  "parseOps [debitLine] = Inr [debitOp] \<and> HasValue debitOp \<and>
   parseOpLine amountOnlyLine = Some amountOnlyOp \<and>
   Date amountOnlyOp = [] \<and> HasValue amountOnlyOp \<and>
   parseOps [debitLine, amountOnlyLine] = Inr [debitOp\<lparr>Value := Value amountOnlyOp\<rparr>] \<and>
   Value amountOnlyOp \<noteq> Value debitOp"
  by (simp add: debitLine_def amountOnlyLine_def debitOp_def amountOnlyOp_def makeLine_def eval_simps)

section \<open>The noise filter\<close>

lemma colCount_Nil: "colCount [] c = 0"
  by (simp add: colCount_def)

lemma colCount_snoc:
  "colCount (p @ [op]) c = (if SourceCol op = c then Suc (colCount p c) else colCount p c)"
  by (simp add: colCount_def)

lemma scanColumns_Nil: "scanColumns [] = (Map.empty, - 1, - 1)"
  by (simp add: scanColumns_def)

lemma scanColumns_snoc: "scanColumns (p @ [op]) = countColumn op (scanColumns p)"
  by (simp add: scanColumns_def)

lemma reachesFirst_snoc: "reachesFirst p c m \<Longrightarrow> reachesFirst (p @ [op]) c m"
  unfolding reachesFirst_def
proof -
  assume "\<exists>k<length p. SourceCol (p ! k) = c \<and> colCount (take (Suc k) p) c = m \<and>
        (\<forall>c'. 0 \<le> c' \<longrightarrow> colCount (take k p) c' < m)"
  then obtain k where k: "k < length p" "SourceCol (p ! k) = c" "colCount (take (Suc k) p) c = m"
    "\<forall>c'. 0 \<le> c' \<longrightarrow> colCount (take k p) c' < m" by blast
  then have "k < length (p @ [op]) \<and> SourceCol ((p @ [op]) ! k) = c \<and>
     colCount (take (Suc k) (p @ [op])) c = m \<and>
     (\<forall>c'. 0 \<le> c' \<longrightarrow> colCount (take k (p @ [op])) c' < m)"
    by (simp add: nth_append)
  then show "\<exists>k<length (p @ [op]). SourceCol ((p @ [op]) ! k) = c \<and>
     colCount (take (Suc k) (p @ [op])) c = m \<and>
     (\<forall>c'. 0 \<le> c' \<longrightarrow> colCount (take k (p @ [op])) c' < m)"
    by blast
qed

lemma colCount_undefined: "\<forall>op\<in>set p. SourceCol op < 0 \<Longrightarrow> 0 \<le> c \<Longrightarrow> colCount p c = 0"
  by (auto simp: colCount_def filter_empty_conv)

lemma scanInv_step:
  assumes inv: "scanInv p st"
  shows "scanInv (p @ [op]) (countColumn op st)"
proof -
  obtain cols maxCol maxCount where st: "st = (cols, maxCol, maxCount)" by (cases st) auto
  from inv st have cnt: "\<And>c. 0 \<le> c \<Longrightarrow> mapGet cols c = int (colCount p c)"
    by (simp add: scanInv_def)
  from inv st have none: "\<forall>op\<in>set p. SourceCol op < 0 \<Longrightarrow> maxCol = - 1 \<and> maxCount = - 1"
    by (simp add: scanInv_def)
  from inv st have some: "\<not> (\<forall>op\<in>set p. SourceCol op < 0) \<Longrightarrow>
      0 \<le> maxCol \<and> maxCount = int (colCount p maxCol) \<and>
      (\<forall>c. 0 \<le> c \<longrightarrow> colCount p c \<le> colCount p maxCol) \<and>
      reachesFirst p maxCol (colCount p maxCol)"
    by (simp add: scanInv_def)
  show ?thesis
  proof (cases "SourceCol op \<ge> 0")
    case False
    then have same: "countColumn op (cols, maxCol, maxCount) = (cols, maxCol, maxCount)"
      by (simp add: countColumn_def)
    from False have cc: "\<And>c. 0 \<le> c \<Longrightarrow> colCount (p @ [op]) c = colCount p c"
      by (auto simp: colCount_snoc)
    from False have all: "(\<forall>x\<in>set (p @ [op]). SourceCol x < 0) = (\<forall>x\<in>set p. SourceCol x < 0)"
      by auto
    show ?thesis
    proof (cases "\<forall>x\<in>set p. SourceCol x < 0")
      case True
      with none cnt cc all show ?thesis
        unfolding st same scanInv_def by simp
    next
      case F: False
      from some [OF F] have mc: "0 \<le> maxCol" by simp
      from some [OF F] reachesFirst_snoc
      have "reachesFirst (p @ [op]) maxCol (colCount p maxCol)" by blast
      with some [OF F] cnt cc all F mc show ?thesis
        unfolding st same scanInv_def by simp
    qed
  next
    case True
    define c0 where "c0 = SourceCol op"
    define n where "n = mapGet cols c0 + 1"
    from True have c0: "0 \<le> c0" by (simp add: c0_def)
    have n: "n = int (colCount (p @ [op]) c0)"
      using cnt [OF c0] by (simp add: n_def colCount_snoc c0_def)
    have n1: "n = int (colCount p c0) + 1" using cnt [OF c0] by (simp add: n_def)
    have notall: "\<not> (\<forall>x\<in>set (p @ [op]). SourceCol x < 0)" using True by auto
    have cols': "\<And>c. 0 \<le> c \<Longrightarrow> mapGet (cols(c0 \<mapsto> n)) c = int (colCount (p @ [op]) c)"
      using cnt n by (auto simp: mapGet_def colCount_snoc c0_def)
    show ?thesis
    proof (cases "n > maxCount")
      case gt: True
      then have step: "countColumn op (cols, maxCol, maxCount) = (cols(c0 \<mapsto> n), c0, n)"
        using True by (simp add: countColumn_def Let_def n_def c0_def)
      have bound: "\<And>c. 0 \<le> c \<Longrightarrow> int (colCount p c) < n"
      proof -
        fix c :: real assume c: "0 \<le> c"
        show "int (colCount p c) < n"
        proof (cases "\<forall>x\<in>set p. SourceCol x < 0")
          case True
          with colCount_undefined [OF True c] n1 show ?thesis by simp
        next
          case False
          from some [OF False] c have "colCount p c \<le> colCount p maxCol" by blast
          with some [OF False] gt show ?thesis by simp
        qed
      qed
      have le: "\<And>c. 0 \<le> c \<Longrightarrow> colCount (p @ [op]) c \<le> colCount (p @ [op]) c0"
      proof -
        fix c :: real assume c: "0 \<le> c"
        from bound [OF c] n have "int (colCount p c) < int (colCount (p @ [op]) c0)" by simp
        then show "colCount (p @ [op]) c \<le> colCount (p @ [op]) c0"
          by (auto simp: colCount_snoc split: if_splits)
      qed
      have before: "\<And>c. 0 \<le> c \<Longrightarrow> colCount p c < colCount (p @ [op]) c0"
      proof -
        fix c :: real assume c: "0 \<le> c"
        from bound [OF c] n show "colCount p c < colCount (p @ [op]) c0" by simp
      qed
      have "length p < length (p @ [op]) \<and> SourceCol ((p @ [op]) ! length p) = c0 \<and>
            colCount (take (Suc (length p)) (p @ [op])) c0 = colCount (p @ [op]) c0 \<and>
            (\<forall>c'. 0 \<le> c' \<longrightarrow> colCount (take (length p) (p @ [op])) c' < colCount (p @ [op]) c0)"
        using before by (simp add: c0_def)
      then have rf: "reachesFirst (p @ [op]) c0 (colCount (p @ [op]) c0)"
        unfolding reachesFirst_def by blast
      from cols' c0 n le rf notall show ?thesis
        unfolding st step scanInv_def by simp
    next
      case le: False
      then have step: "countColumn op (cols, maxCol, maxCount) = (cols(c0 \<mapsto> n), maxCol, maxCount)"
        using True by (simp add: countColumn_def Let_def n_def c0_def)
      from le n1 have pos: "0 \<le> maxCount" by simp
      have F: "\<not> (\<forall>x\<in>set p. SourceCol x < 0)"
      proof
        assume "\<forall>x\<in>set p. SourceCol x < 0"
        from none [OF this] pos show False by simp
      qed
      note s = some [OF F]
      have ne: "maxCol \<noteq> c0"
      proof
        assume "maxCol = c0"
        with s n1 le show False by simp
      qed
      then have mc: "colCount (p @ [op]) maxCol = colCount p maxCol"
        by (simp add: colCount_snoc c0_def)
      have le': "\<And>c. 0 \<le> c \<Longrightarrow> colCount (p @ [op]) c \<le> colCount (p @ [op]) maxCol"
      proof -
        fix c :: real assume c: "0 \<le> c"
        show "colCount (p @ [op]) c \<le> colCount (p @ [op]) maxCol"
        proof (cases "c = c0")
          case True
          with n le s mc show ?thesis by simp
        next
          case False
          then have "colCount (p @ [op]) c = colCount p c" by (simp add: colCount_snoc c0_def)
          with s c mc show ?thesis by simp
        qed
      qed
      from s reachesFirst_snoc have "reachesFirst (p @ [op]) maxCol (colCount p maxCol)" by blast
      then have rf: "reachesFirst (p @ [op]) maxCol (colCount (p @ [op]) maxCol)" by (simp add: mc)
      from cols' s mc le' rf notall show ?thesis
        unfolding st step scanInv_def by simp
    qed
  qed
qed

lemma scanInv_scanColumns: "scanInv p (scanColumns p)"
proof (induction p rule: rev_induct)
  case Nil
  show ?case by (simp add: scanInv_def scanColumns_Nil colCount_Nil mapGet_def)
next
  case (snoc op p)
  then show ?case by (simp add: scanColumns_snoc scanInv_step)
qed


lemma dominantColumn_none:
  assumes "\<forall>op\<in>set ops. SourceCol op < 0"
  shows "dominantColumn ops = - 1"
proof -
  obtain cols maxCol maxCount where st: "scanColumns ops = (cols, maxCol, maxCount)"
    by (cases "scanColumns ops") auto
  from scanInv_scanColumns [of ops] assms show ?thesis
    unfolding st dominantColumn_def scanInv_def by simp
qed

lemma dominantColumn_some:
  assumes "\<exists>op\<in>set ops. 0 \<le> SourceCol op"
  shows "0 \<le> dominantColumn ops \<and>
         (\<forall>c. 0 \<le> c \<longrightarrow> colCount ops c \<le> colCount ops (dominantColumn ops)) \<and>
         reachesFirst ops (dominantColumn ops) (colCount ops (dominantColumn ops))"
proof -
  obtain cols maxCol maxCount where st: "scanColumns ops = (cols, maxCol, maxCount)"
    by (cases "scanColumns ops") auto
  from assms have "\<not> (\<forall>op\<in>set ops. SourceCol op < 0)" by (auto simp: not_less)
  with scanInv_scanColumns [of ops] show ?thesis
    unfolding st dominantColumn_def scanInv_def by simp
qed

lemmas filter_simps =
  filterOnSourceColumn_def dominantColumn_def scanColumns_def countColumn_def mapGet_def
  changeAt_def totalRecord_def Let_def

lemma noisyPage_filtered:
  "filterOnSourceColumn noisyPage =
     [changeAt 100 ''A'', changeAt 100 ''B'', changeAt 100 ''C'', totalRecord]"
  by (simp add: noisyPage_def filter_simps)

lemma tiedPage_filtered:
  "dominantColumn tiedPage = 100 \<and>
   filterOnSourceColumn tiedPage = [changeAt 100 ''A'', changeAt 100 ''B'']"
  by (simp add: tiedPage_def filter_simps)

text \<open>
  C7. \<open>filterOnSourceColumn\<close> keeps, in order, the records with a negative source column
  (no source column) and the records whose source column is the dominant column. When
  some record has a column (\<open>\<ge> 0\<close>), the dominant column is one of the most frequent
  columns, and among these the first to reach that frequency in the scan from left to
  right: a column that reaches an equal count later does not replace it. When no record
  has a column, the dominant column is \<open>-1\<close> and every record is kept. On the example
  page the three records at column 100 and the total record are kept and the record at
  column 250 is dropped.
\<close>

theorem filterOnSourceColumn_dominant:
  "filterOnSourceColumn ops =
     filter (\<lambda>op. SourceCol op < 0 \<or> SourceCol op = dominantColumn ops) ops \<and>
   ((\<forall>op\<in>set ops. SourceCol op < 0) \<longrightarrow>
      dominantColumn ops = - 1 \<and> filterOnSourceColumn ops = ops) \<and>
   ((\<exists>op\<in>set ops. 0 \<le> SourceCol op) \<longrightarrow>
      0 \<le> dominantColumn ops \<and>
      (\<forall>c. 0 \<le> c \<longrightarrow> colCount ops c \<le> colCount ops (dominantColumn ops)) \<and>
      reachesFirst ops (dominantColumn ops) (colCount ops (dominantColumn ops))) \<and>
   filterOnSourceColumn noisyPage =
     [changeAt 100 ''A'', changeAt 100 ''B'', changeAt 100 ''C'', totalRecord]"
proof -
  have a: "filterOnSourceColumn ops =
     filter (\<lambda>op. SourceCol op < 0 \<or> SourceCol op = dominantColumn ops) ops"
    by (simp add: filterOnSourceColumn_def Let_def)
  have b: "dominantColumn ops = - 1 \<and> filterOnSourceColumn ops = ops"
    if "\<forall>op\<in>set ops. SourceCol op < 0"
    using that dominantColumn_none [OF that] by (simp add: a)
  from a b dominantColumn_some [of ops] noisyPage_filtered show ?thesis by blast
qed

theorem filterOnSourceColumn_dominant_witness:
  "(\<exists>op\<in>set tiedPage. 0 \<le> SourceCol op) \<and>
   dominantColumn tiedPage = 100 \<and>
   colCount tiedPage 250 \<le> colCount tiedPage (dominantColumn tiedPage) \<and>
   reachesFirst tiedPage (dominantColumn tiedPage) (colCount tiedPage (dominantColumn tiedPage)) \<and>
   filterOnSourceColumn tiedPage = [changeAt 100 ''A'', changeAt 100 ''B''] \<and>
   filterOnSourceColumn [totalRecord] = [totalRecord]"
proof -
  have e: "\<exists>op\<in>set tiedPage. 0 \<le> SourceCol op"
    by (simp add: tiedPage_def changeAt_def)
  have n: "\<forall>op\<in>set [totalRecord]. SourceCol op < 0"
    by (simp add: totalRecord_def)
  from filterOnSourceColumn_dominant [of tiedPage] e
  have "(\<forall>c. 0 \<le> c \<longrightarrow> colCount tiedPage c \<le> colCount tiedPage (dominantColumn tiedPage)) \<and>
      reachesFirst tiedPage (dominantColumn tiedPage) (colCount tiedPage (dominantColumn tiedPage))"
    by blast
  moreover have "(0::real) \<le> 250" by simp
  ultimately have "colCount tiedPage 250 \<le> colCount tiedPage (dominantColumn tiedPage) \<and>
      reachesFirst tiedPage (dominantColumn tiedPage) (colCount tiedPage (dominantColumn tiedPage))"
    by blast
  moreover from filterOnSourceColumn_dominant [of "[totalRecord]"] n
  have "filterOnSourceColumn [totalRecord] = [totalRecord]" by blast
  ultimately show ?thesis using e tiedPage_filtered by blast
qed

lemma filterOnSourceColumn_member:
  "op \<in> set (filterOnSourceColumn ops) \<longleftrightarrow>
     op \<in> set ops \<and> (SourceCol op < 0 \<or> SourceCol op = dominantColumn ops)"
  by (auto simp: filterOnSourceColumn_def Let_def)

text \<open>
  C2, as the code has it. When nothing is left of a line after its date and its amount,
  \<open>parseOpLine\<close> returns a record whose source column is 0, the zero value of the field,
  and not the \<open>-1\<close> that marks a total record. The noise filter takes it for a record at
  column 0: it keeps it exactly when 0 is the dominant column of the page.
\<close>

theorem parseOpLine_no_fragments:
  assumes "fst (stripValue (fst (stripDate (Words line)))) = []"
  shows "\<exists>op. parseOpLine line = Some op \<and> SourceCol op = 0 \<and> Source op = [] \<and> \<not> IsTotal op \<and>
           (\<forall>ops. op \<in> set ops \<longrightarrow>
              (op \<in> set (filterOnSourceColumn ops) \<longleftrightarrow> dominantColumn ops = 0))"
proof -
  obtain w date where sd: "stripDate (Words line) = (w, date)" by (cases "stripDate (Words line)") auto
  obtain w' v ok where sv: "stripValue w = (w', v, ok)" by (cases "stripValue w") auto
  from assms sd sv have w': "w' = []" by simp
  have sv2: "stripValue [] = ([], 0, False)" by (simp add: stripValue_def)
  define op where "op = (let op0 = (if date \<noteq> [] then Op_zero\<lparr>Date := date\<rparr> else Op_zero);
                             op1 = (if ok then op0\<lparr>Value := v, HasValue := True\<rparr> else op0)
                         in op1\<lparr>Source := Source op1 @ joinWords []\<rparr>)"
  have p: "parseOpLine line = Some op"
    by (simp add: parseOpLine_def sd sv w' sv2 op_def Let_def)
  have f: "SourceCol op = 0" "Source op = []" "\<not> IsTotal op"
    by (simp_all add: op_def Let_def Op_zero_def joinWords_def)
  from f have "\<forall>ops. op \<in> set ops \<longrightarrow>
              (op \<in> set (filterOnSourceColumn ops) \<longleftrightarrow> dominantColumn ops = 0)"
    by (auto simp: filterOnSourceColumn_member)
  with p f show ?thesis by blast
qed

theorem parseOpLine_no_fragments_witness:
  "fst (stripValue (fst (stripDate (Words dateOnlyLine)))) = [] \<and>
   parseOpLine dateOnlyLine = Some dateOnlyOp \<and> SourceCol dateOnlyOp = 0 \<and>
   dominantColumn [dateOnlyOp, changeAt 100 ''A''] = 0 \<and>
   filterOnSourceColumn [dateOnlyOp, changeAt 100 ''A''] = [dateOnlyOp]"
proof -
  have h: "fst (stripValue (fst (stripDate (Words dateOnlyLine)))) = []"
    by (simp add: dateOnlyLine_def makeLine_def eval_simps)
  have e: "parseOpLine dateOnlyLine = Some dateOnlyOp"
    by (simp add: dateOnlyLine_def dateOnlyOp_def makeLine_def eval_simps)
  from parseOpLine_no_fragments [OF h] e have "SourceCol dateOnlyOp = 0" by auto
  moreover have "dominantColumn [dateOnlyOp, changeAt 100 ''A''] = 0 \<and>
     filterOnSourceColumn [dateOnlyOp, changeAt 100 ''A''] = [dateOnlyOp]"
    by (simp add: dateOnlyOp_def filter_simps)
  ultimately show ?thesis using h e by blast
qed

text \<open>
  The claim C2 as it is stated fails: the line \<open>26 . 02\<close> gives a record whose source
  column is 0 and not negative, and on a page whose dominant column is 100 the noise
  filter drops it.
\<close>

theorem parseOpLine_no_sentinel:
  "fst (stripValue (fst (stripDate (Words dateOnlyLine)))) = [] \<and>
   parseOpLine dateOnlyLine = Some dateOnlyOp \<and>
   \<not> SourceCol dateOnlyOp < 0 \<and>
   filterOnSourceColumn [changeAt 100 ''A'', changeAt 100 ''B'', dateOnlyOp] =
     [changeAt 100 ''A'', changeAt 100 ''B'']"
  by (simp add: dateOnlyLine_def dateOnlyOp_def makeLine_def eval_simps filter_simps)

section \<open>Cross-page deduplication\<close>

lemma firstOccurrencesFrom_Nil: "firstOccurrencesFrom seen [] = []"
  by (simp add: firstOccurrencesFrom_def)

lemma firstOccurrencesFrom_Cons:
  "firstOccurrencesFrom seen (x # l) =
     (if hashOp x \<in> seen then firstOccurrencesFrom seen l
      else x # firstOccurrencesFrom (insert (hashOp x) seen) l)"
proof -
  let ?A = "{i. i < length (x # l) \<and> hashOp ((x # l) ! i) \<notin> seen \<and>
                (\<forall>j<i. hashOp ((x # l) ! j) \<noteq> hashOp ((x # l) ! i))}"
  have z: "0 \<in> ?A \<longleftrightarrow> hashOp x \<notin> seen" by simp
  have s: "{j. Suc j \<in> ?A} =
      {j. j < length l \<and> hashOp (l ! j) \<notin> seen \<and> hashOp x \<noteq> hashOp (l ! j) \<and>
          (\<forall>j'<j. hashOp (l ! j') \<noteq> hashOp (l ! j))}"
    by (simp add: All_less_Suc2)
  show ?thesis
  proof (cases "hashOp x \<in> seen")
    case True
    then have "{j. Suc j \<in> ?A} =
      {j. j < length l \<and> hashOp (l ! j) \<notin> seen \<and> (\<forall>j'<j. hashOp (l ! j') \<noteq> hashOp (l ! j))}"
      unfolding s by auto
    with True z show ?thesis
      by (simp add: firstOccurrencesFrom_def nths_Cons del: length_Cons nth_Cons_Suc)
  next
    case False
    then have "{j. Suc j \<in> ?A} =
      {j. j < length l \<and> hashOp (l ! j) \<notin> insert (hashOp x) seen \<and>
          (\<forall>j'<j. hashOp (l ! j') \<noteq> hashOp (l ! j))}"
      unfolding s by auto
    with False z show ?thesis
      by (simp add: firstOccurrencesFrom_def nths_Cons del: length_Cons nth_Cons_Suc)
  qed
qed

lemma dedupPage_spec:
  "dedupPage (seen, allOps) ops =
     (seen \<union> hashOp ` set ops, allOps @ firstOccurrencesFrom seen ops)"
proof (induction ops arbitrary: seen allOps)
  case Nil
  show ?case by (simp add: firstOccurrencesFrom_Nil)
next
  case (Cons x l)
  show ?case
    by (auto simp: Let_def Cons.IH firstOccurrencesFrom_Cons)
qed

lemma dedupPage_append:
  "dedupPage st (xs @ ys) = dedupPage (dedupPage st xs) ys"
proof (induction xs arbitrary: st)
  case Nil
  obtain seen allOps where st: "st = (seen, allOps)" by (cases st) auto
  show ?case unfolding st by simp
next
  case (Cons x xs)
  obtain seen allOps where st: "st = (seen, allOps)" by (cases st) auto
  show ?case unfolding st by (simp add: Let_def Cons.IH)
qed

lemma extractPDFOps_loop_concat:
  "extractPDFOps_loop st (map Inr pages) = Inr (snd (dedupPage st (concat pages)))"
proof (induction pages arbitrary: st)
  case Nil
  obtain seen allOps where st: "st = (seen, allOps)" by (cases st) auto
  show ?case unfolding st by simp
next
  case (Cons p pages)
  obtain seen allOps where st: "st = (seen, allOps)" by (cases st) auto
  show ?case unfolding st by (simp add: Cons.IH dedupPage_append)
qed

lemma firstOccurrences_eq: "firstOccurrences ops = firstOccurrencesFrom {} ops"
  by (simp add: firstOccurrences_def firstOccurrencesFrom_def)

lemma extractPDFOps_firstOccurrences:
  "extractPDFOps (map Inr pages) = Inr (firstOccurrences (concat pages))"
  by (simp add: extractPDFOps_def extractPDFOps_loop_concat dedupPage_spec firstOccurrences_eq)

lemma firstOccurrencesFrom_keys:
  "hashOp ` set (firstOccurrencesFrom seen ops) = hashOp ` set ops - seen"
proof (induction ops arbitrary: seen)
  case Nil
  show ?case by (simp add: firstOccurrencesFrom_Nil)
next
  case (Cons x l)
  show ?case by (auto simp: firstOccurrencesFrom_Cons Cons.IH)
qed

lemma firstOccurrencesFrom_distinct:
  "distinct (map hashOp (firstOccurrencesFrom seen ops))"
proof (induction ops arbitrary: seen)
  case Nil
  show ?case by (simp add: firstOccurrencesFrom_Nil)
next
  case (Cons x l)
  have "hashOp x \<notin> hashOp ` set (firstOccurrencesFrom (insert (hashOp x) seen) l)"
    by (simp add: firstOccurrencesFrom_keys)
  then show ?case by (simp add: firstOccurrencesFrom_Cons Cons.IH)
qed

lemma distinct_map_filter_one:
  "distinct (map f xs) \<Longrightarrow> y \<in> f ` set xs \<Longrightarrow> length (filter (\<lambda>x. f x = y) xs) = 1"
proof (induction xs)
  case Nil
  then show ?case by simp
next
  case (Cons x xs)
  show ?case
  proof (cases "f x = y")
    case True
    with Cons.prems(1) have "\<forall>z\<in>set xs. f z \<noteq> y" by (auto simp: image_iff)
    then have "filter (\<lambda>x. f x = y) xs = []" by (simp add: filter_empty_conv)
    with True show ?thesis by simp
  next
    case False
    with Cons show ?thesis by auto
  qed
qed

lemma firstOccurrencesFrom_skip:
  assumes "hashOp b \<in> seen \<union> hashOp ` set xs"
  shows "firstOccurrencesFrom seen (xs @ b # zs) = firstOccurrencesFrom seen (xs @ zs)"
  using assms
proof (induction xs arbitrary: seen)
  case Nil
  then show ?case by (simp add: firstOccurrencesFrom_Cons)
next
  case (Cons x xs)
  then show ?case by (auto simp: firstOccurrencesFrom_Cons)
qed

lemma firstOccurrencesFrom_append_seen:
  assumes "hashOp ` set ys \<subseteq> seen \<union> hashOp ` set xs"
  shows "firstOccurrencesFrom seen (xs @ ys) = firstOccurrencesFrom seen xs"
  using assms
proof (induction ys rule: rev_induct)
  case Nil
  show ?case by simp
next
  case (snoc y ys)
  have "firstOccurrencesFrom seen ((xs @ ys) @ y # []) = firstOccurrencesFrom seen ((xs @ ys) @ [])"
    by (rule firstOccurrencesFrom_skip) (use snoc.prems in auto)
  with snoc show ?case by simp
qed


lemma firstOccurrencesFrom_distinct_keys:
  "distinct (map hashOp ops) \<Longrightarrow> hashOp ` set ops \<inter> seen = {} \<Longrightarrow>
     firstOccurrencesFrom seen ops = ops"
proof (induction ops arbitrary: seen)
  case Nil
  show ?case by (simp add: firstOccurrencesFrom_Nil)
next
  case (Cons x l)
  from Cons.prems have "hashOp ` set l \<inter> insert (hashOp x) seen = {}" by auto
  with Cons show ?case by (auto simp: firstOccurrencesFrom_Cons)
qed

lemma takeWhile_until: "c \<notin> set xs \<Longrightarrow> takeWhile (\<lambda>x. x \<noteq> c) (xs @ c # r) = xs"
  by (induction xs) auto

lemma split_at_separator:
  assumes "xs @ c # r = ys @ c # r'" and "c \<notin> set xs" and "c \<notin> set ys"
  shows "xs = ys \<and> r = r'"
proof -
  have "takeWhile (\<lambda>x. x \<noteq> c) (xs @ c # r) = xs" using assms(2) by (rule takeWhile_until)
  moreover have "takeWhile (\<lambda>x. x \<noteq> c) (ys @ c # r') = ys" using assms(3) by (rule takeWhile_until)
  ultimately have "xs = ys" using assms(1) by simp
  with assms(1) show ?thesis by simp
qed

lemma split_at_last_separator:
  assumes "xs @ c # r = ys @ c # r'" and "c \<notin> set r" and "c \<notin> set r'"
  shows "xs = ys \<and> r = r'"
proof -
  from assms(1) have "rev (xs @ c # r) = rev (ys @ c # r')" by simp
  then have "rev r @ c # rev xs = rev r' @ c # rev ys" by simp
  from split_at_separator [OF this] assms(2,3) show ?thesis by simp
qed

lemma decimal_hd_digit: "isDigit (hd (decimal n))"
  using decimal_digits [of n] decimal_nonempty [of n] by (cases "decimal n") simp_all

lemma decimal_inj: "decimal m = decimal n \<Longrightarrow> m = n"
  by (metis digitsVal_decimal)

lemma decimalInt_inj: "decimalInt i = decimalInt j \<Longrightarrow> i = j"
proof -
  assume e: "decimalInt i = decimalInt j"
  have nd: "\<not> isDigit (CHR ''-'')" by (simp add: isDigit_def)
  have neq: "CHR ''-'' # decimal m \<noteq> decimal n" for m n
  proof
    assume "CHR ''-'' # decimal m = decimal n"
    then have "hd (decimal n) = CHR ''-''" by (metis list.sel(1))
    with decimal_hd_digit [of n] nd show False by simp
  qed
  show "i = j"
  proof (cases "i < 0")
    case True
    show ?thesis
    proof (cases "j < 0")
      case T2: True
      with True e have "decimal (nat (- i)) = decimal (nat (- j))" by (simp add: decimalInt_def)
      from decimal_inj [OF this] True T2 show ?thesis by simp
    next
      case False
      with True e neq show ?thesis by (simp add: decimalInt_def)
    qed
  next
    case False
    show ?thesis
    proof (cases "j < 0")
      case True
      with False e neq [of "nat (- j)" "nat i"] show ?thesis by (simp add: decimalInt_def)
    next
      case F2: False
      with False e have "decimal (nat i) = decimal (nat j)" by (simp add: decimalInt_def)
      from decimal_inj [OF this] False F2 show ?thesis by simp
    qed
  qed
qed

lemma decimalInt_no_equals: "CHR ''='' \<notin> set (decimalInt i)"
proof -
  have "CHR ''='' \<notin> set (decimal n)" for n
    using decimal_digits [of n] by (auto simp: list_all_iff isDigit_def)
  then show ?thesis by (simp add: decimalInt_def)
qed

lemma Sprintf_f_inj_suffix:
  assumes "s @ ''-'' @ Sprintf_f v = s' @ ''-'' @ Sprintf_f v'"
  shows "s = s' \<and> v = v'"
proof -
  let ?n = "decimalInt (sint v)" and ?n' = "decimalInt (sint v')"
  from assms have "(s @ ''-%!f(int64'') @ CHR ''='' # (?n @ '')'') =
                   (s' @ ''-%!f(int64'') @ CHR ''='' # (?n' @ '')'')"
    by (simp add: Sprintf_f_def)
  moreover have "CHR ''='' \<notin> set (?n @ '')'')" "CHR ''='' \<notin> set (?n' @ '')'')"
    using decimalInt_no_equals by simp_all
  ultimately have "s @ ''-%!f(int64'' = s' @ ''-%!f(int64'' \<and> ?n @ '')'' = ?n' @ '')''"
    by (rule split_at_last_separator)
  then have "?n = ?n'" and "s = s'" by simp_all
  from decimalInt_inj [OF this(1)] have "v = v'" by (rule signed_word_eqI)
  with \<open>s = s'\<close> show ?thesis by simp
qed

lemma hashOp_inj:
  assumes "CHR ''-'' \<notin> set (Date a)" and "CHR ''-'' \<notin> set (Date b)"
  shows "hashOp a = hashOp b \<longleftrightarrow> Date a = Date b \<and> Source a = Source b \<and> Value a = Value b"
proof
  assume "hashOp a = hashOp b"
  then have "Date a @ CHR ''-'' # (Source a @ ''-'' @ Sprintf_f (Value a)) =
             Date b @ CHR ''-'' # (Source b @ ''-'' @ Sprintf_f (Value b))"
    by (simp add: hashOp_def)
  from split_at_separator [OF this assms]
  have d: "Date a = Date b" and r: "Source a @ ''-'' @ Sprintf_f (Value a) = Source b @ ''-'' @ Sprintf_f (Value b)"
    by simp_all
  from Sprintf_f_inj_suffix [OF r] d
  show "Date a = Date b \<and> Source a = Source b \<and> Value a = Value b" by simp
next
  assume "Date a = Date b \<and> Source a = Source b \<and> Value a = Value b"
  then show "hashOp a = hashOp b" by (simp add: hashOp_def)
qed


lemma hashOp_changeAt: "hashOp (changeAt c src) = ''26.02-'' @ src @ ''-%!f(int64=-1000)''"
  by (simp add: hashOp_def changeAt_def Sprintf_f_def decimalInt_def decimal.simps digitChar_simps)

lemma hashOp_totalRecord:
  "hashOp totalRecord = ''25.02.2015-SOLDE CREDITEUR AU 25.02.2015-%!f(int64=10000)''"
  by (simp add: hashOp_def totalRecord_def Sprintf_f_def decimalInt_def decimal.simps digitChar_simps)

lemma twoPages_deduplicated:
  "extractPDFOps [Inr firstPage, Inr overflowPage] = Inr (firstPage @ [changeAt 100 ''D''])"
  by (simp add: extractPDFOps_def firstPage_def overflowPage_def Let_def
      hashOp_changeAt hashOp_totalRecord)

text \<open>
  C8. For the per-page record lists of a document (every page extracted without error),
  \<open>extractPDFOps\<close> returns the records of all pages that are the first with their key
  \<open>hashOp\<close>, in the order of the input: the keys of the result are distinct, every key of
  the input has exactly one record in the result, and a second page all of whose records
  are on the first page adds nothing (with distinct keys on the first page the result is
  the first page). The key is made of the date, the source label and the amount: for
  records whose dates contain no \<open>-\<close>, as the dates that the parser produces, two keys
  are equal exactly when date, source label and amount are.
\<close>

theorem extractPDFOps_first_occurrences:
  "extractPDFOps (map Inr pages) = Inr (firstOccurrences (concat pages)) \<and>
   distinct (map hashOp (firstOccurrences (concat pages))) \<and>
   hashOp ` set (firstOccurrences (concat pages)) = hashOp ` set (concat pages) \<and>
   (\<forall>r\<in>set (concat pages).
      length (filter (\<lambda>x. hashOp x = hashOp r) (firstOccurrences (concat pages))) = 1) \<and>
   (set p2 \<subseteq> set p1 \<longrightarrow> extractPDFOps [Inr p1, Inr p2] = extractPDFOps [Inr p1]) \<and>
   (set p2 \<subseteq> set p1 \<and> distinct (map hashOp p1) \<longrightarrow> extractPDFOps [Inr p1, Inr p2] = Inr p1) \<and>
   (CHR ''-'' \<notin> set (Date a) \<and> CHR ''-'' \<notin> set (Date b) \<longrightarrow>
      (hashOp a = hashOp b \<longleftrightarrow> Date a = Date b \<and> Source a = Source b \<and> Value a = Value b))"
proof -
  let ?ops = "concat pages"
  have c1: "extractPDFOps (map Inr pages) = Inr (firstOccurrences ?ops)"
    by (rule extractPDFOps_firstOccurrences)
  have c2: "distinct (map hashOp (firstOccurrences ?ops))"
    by (simp add: firstOccurrences_eq firstOccurrencesFrom_distinct)
  have c3: "hashOp ` set (firstOccurrences ?ops) = hashOp ` set ?ops"
    by (simp add: firstOccurrences_eq firstOccurrencesFrom_keys)
  have c4: "\<forall>r\<in>set ?ops. length (filter (\<lambda>x. hashOp x = hashOp r) (firstOccurrences ?ops)) = 1"
  proof
    fix r assume "r \<in> set ?ops"
    then have "hashOp r \<in> hashOp ` set (firstOccurrences ?ops)" unfolding c3 by (rule imageI)
    with c2 show "length (filter (\<lambda>x. hashOp x = hashOp r) (firstOccurrences ?ops)) = 1"
      by (rule distinct_map_filter_one)
  qed
  have two: "extractPDFOps [Inr p1, Inr p2] = Inr (firstOccurrencesFrom {} (p1 @ p2))"
    for p1 p2 :: "Op list"
    using extractPDFOps_firstOccurrences [of "[p1, p2]"] by (simp add: firstOccurrences_eq)
  have one: "extractPDFOps [Inr p1] = Inr (firstOccurrencesFrom {} p1)" for p1 :: "Op list"
    using extractPDFOps_firstOccurrences [of "[p1]"] by (simp add: firstOccurrences_eq)
  have c5: "extractPDFOps [Inr p1, Inr p2] = extractPDFOps [Inr p1]" if "set p2 \<subseteq> set p1"
  proof -
    from that have "hashOp ` set p2 \<subseteq> {} \<union> hashOp ` set p1" by auto
    from firstOccurrencesFrom_append_seen [OF this] show ?thesis
      unfolding two one by simp
  qed
  have c6: "extractPDFOps [Inr p1, Inr p2] = Inr p1" if "set p2 \<subseteq> set p1 \<and> distinct (map hashOp p1)"
  proof -
    from that have "firstOccurrencesFrom {} p1 = p1"
      by (simp add: firstOccurrencesFrom_distinct_keys)
    with c5 that show ?thesis unfolding one by simp
  qed
  have c7: "hashOp a = hashOp b \<longleftrightarrow> Date a = Date b \<and> Source a = Source b \<and> Value a = Value b"
    if "CHR ''-'' \<notin> set (Date a) \<and> CHR ''-'' \<notin> set (Date b)"
    using that hashOp_inj [of a b] by blast
  from c1 c2 c3 c4 c5 c6 c7 show ?thesis by blast
qed

theorem extractPDFOps_first_occurrences_witness:
  "extractPDFOps (map Inr [firstPage, overflowPage]) = Inr (firstPage @ [changeAt 100 ''D'']) \<and>
   firstOccurrences (concat [firstPage, overflowPage]) = firstPage @ [changeAt 100 ''D''] \<and>
   changeAt 100 ''B'' \<in> set (concat [firstPage, overflowPage]) \<and>
   length (filter (\<lambda>x. hashOp x = hashOp (changeAt 100 ''B'')) (firstPage @ [changeAt 100 ''D''])) = 1 \<and>
   set (tl firstPage) \<subseteq> set firstPage \<and> distinct (map hashOp firstPage) \<and>
   extractPDFOps [Inr firstPage, Inr (tl firstPage)] = Inr firstPage \<and>
   CHR ''-'' \<notin> set (Date zeroTotal) \<and> CHR ''-'' \<notin> set (Date zeroChange) \<and>
   hashOp zeroTotal = hashOp zeroChange"
proof -
  note t = extractPDFOps_first_occurrences
    [of "[firstPage, overflowPage]" "tl firstPage" firstPage zeroTotal zeroChange]
  have e: "extractPDFOps (map Inr [firstPage, overflowPage]) = Inr (firstPage @ [changeAt 100 ''D''])"
    using twoPages_deduplicated by simp
  from t e have f: "firstOccurrences (concat [firstPage, overflowPage]) = firstPage @ [changeAt 100 ''D'']"
    by simp
  have m: "changeAt 100 ''B'' \<in> set (concat [firstPage, overflowPage])"
    by (simp add: firstPage_def)
  from t m have "length (filter (\<lambda>x. hashOp x = hashOp (changeAt 100 ''B''))
                    (firstOccurrences (concat [firstPage, overflowPage]))) = 1"
    by blast
  then have g: "length (filter (\<lambda>x. hashOp x = hashOp (changeAt 100 ''B'')) (firstPage @ [changeAt 100 ''D''])) = 1"
    unfolding f .
  have h: "set (tl firstPage) \<subseteq> set firstPage \<and> distinct (map hashOp firstPage)"
    by (simp add: firstPage_def hashOp_changeAt hashOp_totalRecord)
  from t h have i: "extractPDFOps [Inr firstPage, Inr (tl firstPage)] = Inr firstPage"
    by blast
  have d: "CHR ''-'' \<notin> set (Date zeroTotal) \<and> CHR ''-'' \<notin> set (Date zeroChange)"
    by (simp add: zeroTotal_def zeroChange_def)
  have "Date zeroTotal = Date zeroChange \<and> Source zeroTotal = Source zeroChange \<and>
        Value zeroTotal = Value zeroChange"
    by (simp add: zeroTotal_def zeroChange_def)
  with t d have k: "hashOp zeroTotal = hashOp zeroChange" by blast
  from e f m g h i d k show ?thesis by blast
qed

text \<open>
  C10. The key \<open>hashOp\<close> is computed from the date, the source label and the stored amount
  of a record and from nothing else: two records that agree on these have the same key,
  whatever their flags and columns. In a document where such a record \<open>b\<close> comes after
  such a record \<open>a\<close>, the result of \<open>extractPDFOps\<close> is what it would be without \<open>b\<close>.
\<close>

theorem hashOp_ignores_flags:
  "(Date a = Date b \<and> Source a = Source b \<and> Value a = Value b \<longrightarrow> hashOp a = hashOp b) \<and>
   (Date a = Date b \<and> Source a = Source b \<and> Value a = Value b \<and>
    concat pages = xs @ a # ys @ b # zs \<longrightarrow>
      extractPDFOps (map Inr pages) = extractPDFOps [Inr (xs @ a # ys @ zs)])"
proof -
  have k: "hashOp a = hashOp b" if "Date a = Date b \<and> Source a = Source b \<and> Value a = Value b"
    using that by (simp add: hashOp_def)
  have "extractPDFOps (map Inr pages) = extractPDFOps [Inr (xs @ a # ys @ zs)]"
    if h: "Date a = Date b \<and> Source a = Source b \<and> Value a = Value b \<and>
           concat pages = xs @ a # ys @ b # zs"
  proof -
    from h k have "hashOp b \<in> {} \<union> hashOp ` set (xs @ a # ys)" by simp
    from firstOccurrencesFrom_skip [OF this, of zs]
    have "firstOccurrencesFrom {} (xs @ a # ys @ b # zs) = firstOccurrencesFrom {} (xs @ a # ys @ zs)"
      by simp
    with h have "firstOccurrences (concat pages) = firstOccurrences (concat [xs @ a # ys @ zs])"
      by (simp add: firstOccurrences_eq)
    then show ?thesis
      using extractPDFOps_firstOccurrences [of pages]
        extractPDFOps_firstOccurrences [of "[xs @ a # ys @ zs]"]
      by simp
  qed
  with k show ?thesis by blast
qed

theorem hashOp_ignores_flags_witness:
  "Date zeroTotal = Date zeroChange \<and> Source zeroTotal = Source zeroChange \<and>
   Value zeroTotal = Value zeroChange \<and>
   IsTotal zeroTotal \<and> \<not> IsTotal zeroChange \<and> HasValue zeroTotal \<and> \<not> HasValue zeroChange \<and>
   hashOp zeroTotal = hashOp zeroChange \<and>
   concat [ [zeroTotal], [zeroChange] ] = [] @ zeroTotal # [] @ zeroChange # [] \<and>
   extractPDFOps (map Inr [ [zeroTotal], [zeroChange] ]) = extractPDFOps [Inr [zeroTotal]] \<and>
   extractPDFOps [Inr [zeroTotal]] = Inr [zeroTotal]"
proof -
  have e: "Date zeroTotal = Date zeroChange \<and> Source zeroTotal = Source zeroChange \<and>
           Value zeroTotal = Value zeroChange"
    by (simp add: zeroTotal_def zeroChange_def)
  have f: "IsTotal zeroTotal \<and> \<not> IsTotal zeroChange \<and> HasValue zeroTotal \<and> \<not> HasValue zeroChange"
    by (simp add: zeroTotal_def zeroChange_def)
  have c: "concat [ [zeroTotal], [zeroChange] ] = [] @ zeroTotal # [] @ zeroChange # []"
    by simp
  note t = hashOp_ignores_flags [of zeroTotal zeroChange "[ [zeroTotal], [zeroChange] ]" "[]" "[]" "[]"]
  from t e have k: "hashOp zeroTotal = hashOp zeroChange" by blast
  from t e c have r: "extractPDFOps (map Inr [ [zeroTotal], [zeroChange] ]) =
      extractPDFOps [Inr ([] @ zeroTotal # [] @ [])]"
    by blast
  have s: "extractPDFOps [Inr [zeroTotal]] = Inr [zeroTotal]"
    by (simp add: extractPDFOps_def Let_def)
  from e f k c r s show ?thesis by simp
qed

section \<open>The balance reconciler\<close>

lemma rolloverOps_converted: "convertOpsToValues rolloverOps = Inr rolloverValues"
  by (simp add: convertOpsToValues_def rolloverOps_def rolloverValues_def eval_simps)

lemma convert_loop_inv:
  "convert_loop values tot ops = Inr vs \<Longrightarrow> (values \<noteq> [] \<Longrightarrow> VValue (last values) = tot) \<Longrightarrow>
     length vs = length values + length ops \<and> take (length values) vs = values \<and>
     (\<forall>i<length ops. 0 < length values + i \<longrightarrow>
        valueStep (vs ! (length values + i - 1)) (ops ! i) (vs ! (length values + i))) \<and>
     (values = [] \<and> ops \<noteq> [] \<longrightarrow> IsTotal (ops ! 0) \<and> VValue (vs ! 0) = tot)"
proof (induction ops arbitrary: "values" tot)
  case Nil
  then show ?case by simp
next
  case (Cons op ops)
  from Cons.prems(1) obtain nv tot' where
    rec: "convert_loop (values @ [nv]) tot' ops = Inr vs" and
    nv: "VValue nv = tot'" and
    src: "VSource nv = Source op" and
    tt: "IsTotal op \<Longrightarrow> tot' = tot \<and> Value op = tot \<and> time_Parse (Date op) = Some (VDate nv)" and
    tc: "\<not> IsTotal op \<Longrightarrow> tot' = tot + Value op \<and> values \<noteq> [] \<and>
            resolveDate (VDate (last values)) (Date op) = Inr (VDate nv)"
    by (auto simp: Let_def split: if_splits option.splits sum.splits)
  have pre: "values @ [nv] \<noteq> [] \<Longrightarrow> VValue (last (values @ [nv])) = tot'"
    using nv by simp
  note inv = Cons.IH [OF rec pre]
  from inv have len: "length vs = length values + 1 + length ops" by simp
  from inv have tk: "take (length values + 1) vs = values @ [nv]" by simp
  from inv have steps0: "\<forall>i<length ops. 0 < length (values @ [nv]) + i \<longrightarrow>
        valueStep (vs ! (length (values @ [nv]) + i - 1)) (ops ! i) (vs ! (length (values @ [nv]) + i))"
    by blast
  have steps: "valueStep (vs ! (length values + i)) (ops ! i) (vs ! (length values + i + 1))"
    if "i < length ops" for i
    using steps0 that by (auto simp: add.commute)
  have at: "vs ! length values = nv"
  proof -
    have "vs ! length values = (values @ [nv]) ! length values"
      unfolding tk [symmetric] by simp
    then show ?thesis by simp
  qed
  have tk': "take (length values) vs = values"
  proof -
    have "take (length values) (take (length values + 1) vs) = take (length values) vs"
      by (simp add: min_def)
    then have "take (length values) vs = take (length values) (values @ [nv])"
      unfolding tk by simp
    then show ?thesis by simp
  qed
  have lastv: "vs ! (length values - 1) = last values" if "values \<noteq> []"
  proof -
    have "vs ! (length values - 1) = take (length values) vs ! (length values - 1)"
      using that by simp
    then show ?thesis using that by (simp add: tk' last_conv_nth)
  qed
  have first: "valueStep (vs ! (length values - 1)) op (vs ! length values)" if ne: "values \<noteq> []"
  proof -
    from lastv [OF ne] have lv': "vs ! (length values - Suc 0) = last values" by simp
    show ?thesis
    proof (cases "IsTotal op")
      case True
      with tt Cons.prems(2) [OF ne] nv src show ?thesis
        by (simp add: valueStep_def at lv')
    next
      case False
      with tc Cons.prems(2) [OF ne] nv src show ?thesis
        by (simp add: valueStep_def at lv')
    qed
  qed
  have all: "valueStep (vs ! (length values + j - 1)) ((op # ops) ! j) (vs ! (length values + j))"
    if j: "j < length (op # ops)" and pos: "0 < length values + j" for j
  proof (cases j)
    case 0
    with pos have "values \<noteq> []" by simp
    from first [OF this] 0 show ?thesis by simp
  next
    case (Suc i)
    with j have i: "i < length ops" by simp
    from steps [OF i] Suc show ?thesis by simp
  qed
  have start: "IsTotal op \<and> VValue (vs ! 0) = tot" if "values = []"
  proof -
    from tc that have t: "IsTotal op" by blast
    from at that have "vs ! 0 = nv" by simp
    with tt [OF t] nv t show ?thesis by simp
  qed
  from len tk' all start show ?case by simp
qed

lemma isDigit_dot: "\<not> isDigit (CHR ''.'')"
  by (simp add: isDigit_def)

lemma time_Parse_resolved:
  assumes p: "time_Parse (opDate @ ''.'' @ decimal y) = Some date"
  shows "length opDate = 5 \<and> year date = y \<and>
         month date = digitsVal (take 2 (drop 3 opDate)) \<and> day date = digitsVal (take 2 opDate)"
proof -
  define v where "v = opDate @ ''.'' @ decimal y"
  from p have len: "length v = 10" and d5: "v ! 5 = CHR ''.''"
    and dg: "isDigit (v ! 6)" "isDigit (v ! 7)" "isDigit (v ! 8)" "isDigit (v ! 9)"
    and res: "date = \<lparr>year = digitsVal (drop 6 v), month = digitsVal (take 2 (drop 3 v)),
                      day = digitsVal (take 2 v)\<rparr>"
    unfolding v_def [symmetric]
    by (auto simp: time_Parse_def Let_def split: if_splits)
  have lv: "length v = length opDate + 1 + length (decimal y)" by (simp add: v_def)
  have L5: "length opDate = 5"
  proof (rule ccontr)
    assume "length opDate \<noteq> 5"
    then consider "length opDate < 5" | "5 < length opDate" by linarith
    then show False
    proof cases
      case 1
      then have "v ! 5 = decimal y ! (5 - length opDate - 1)"
        by (simp add: v_def nth_append)
      moreover have "5 - length opDate - 1 < length (decimal y)" using len lv 1 by simp
      ultimately have "isDigit (v ! 5)" using decimal_digits [of y] by (simp add: list_all_length)
      with d5 show False by (simp add: isDigit_dot)
    next
      case 2
      have "v ! length opDate = CHR ''.''" by (simp add: v_def nth_append)
      moreover have "length opDate = 6 \<or> length opDate = 7 \<or> length opDate = 8 \<or> length opDate = 9"
        using 2 len lv by arith
      ultimately show False using dg by (auto simp: isDigit_dot)
    qed
  qed
  then have "drop 6 v = decimal y" "take 2 (drop 3 v) = take 2 (drop 3 opDate)" "take 2 v = take 2 opDate"
    by (simp_all add: v_def)
  with res L5 show ?thesis by (simp add: digitsVal_decimal)
qed

text \<open>
  C3. When \<open>convertOpsToValues\<close> accepts a sequence, it emits one \<open>Value\<close> for each record;
  the first balance is the stated amount of the first record; at every later position the
  balance is the stated amount of the record when it is a total record, and the previous
  balance plus the amount of the record (in the arithmetic of \<open>int64\<close>) when it is a
  change record; the last record is a total record and the last balance is its stated
  amount.
\<close>

theorem convertOpsToValues_balances:
  assumes ok: "convertOpsToValues ops = Inr vs"
  shows "length vs = length ops \<and>
         VValue (vs ! 0) = Value (ops ! 0) \<and>
         (\<forall>i. 0 < i \<and> i < length ops \<longrightarrow>
            (if IsTotal (ops ! i) then VValue (vs ! i) = Value (ops ! i)
             else VValue (vs ! i) = VValue (vs ! (i - 1)) + Value (ops ! i))) \<and>
         IsTotal (last ops) \<and> VValue (last vs) = Value (last ops)"
proof -
  from ok have l2: "2 \<le> length ops" and f: "IsTotal (ops ! 0)" and
    la: "IsTotal (ops ! (length ops - 1))" and
    loop: "convert_loop [] (Value (ops ! 0)) ops = Inr vs"
    by (auto simp: convertOpsToValues_def split: if_splits)
  from l2 have "0 < length ops" by (cases ops) simp_all
  then have ne: "ops \<noteq> []" by auto
  have "([] :: AccountValue list) \<noteq> [] \<Longrightarrow> VValue (last []) = Value (ops ! 0)" by simp
  note inv = convert_loop_inv [OF loop this]
  from inv have len: "length vs = length ops" by simp
  from len ne have nev: "vs \<noteq> []" by auto
  from inv ne have v0: "VValue (vs ! 0) = Value (ops ! 0)" by simp
  have steps: "valueStep (vs ! (i - 1)) (ops ! i) (vs ! i)" if "0 < i" "i < length ops" for i
    using inv that by simp
  have mid: "\<forall>i. 0 < i \<and> i < length ops \<longrightarrow>
            (if IsTotal (ops ! i) then VValue (vs ! i) = Value (ops ! i)
             else VValue (vs ! i) = VValue (vs ! (i - 1)) + Value (ops ! i))"
    using steps by (auto simp: valueStep_def)
  have lt: "IsTotal (last ops)" using la ne by (simp add: last_conv_nth)
  have idx: "0 < length ops - 1 \<and> length ops - 1 < length ops" using l2 by arith
  with mid have "if IsTotal (ops ! (length ops - 1))
      then VValue (vs ! (length ops - 1)) = Value (ops ! (length ops - 1))
      else VValue (vs ! (length ops - 1)) =
             VValue (vs ! (length ops - 1 - 1)) + Value (ops ! (length ops - 1))"
    by blast
  with la have "VValue (vs ! (length ops - 1)) = Value (ops ! (length ops - 1))"
    by simp
  then have lv: "VValue (last vs) = Value (last ops)"
    using ne nev len by (simp add: last_conv_nth)
  from len v0 mid lt lv show ?thesis by blast
qed

theorem convertOpsToValues_balances_witness:
  "convertOpsToValues rolloverOps = Inr rolloverValues \<and>
   length rolloverValues = length rolloverOps \<and>
   VValue (rolloverValues ! 0) = Value (rolloverOps ! 0) \<and>
   \<not> IsTotal (rolloverOps ! 1) \<and>
   VValue (rolloverValues ! 1) = VValue (rolloverValues ! 0) + Value (rolloverOps ! 1) \<and>
   IsTotal (rolloverOps ! 2) \<and>
   VValue (rolloverValues ! 2) = Value (rolloverOps ! 2) \<and>
   IsTotal (last rolloverOps) \<and> VValue (last rolloverValues) = Value (last rolloverOps)"
  using convertOpsToValues_balances [OF rolloverOps_converted] rolloverOps_converted
  by (simp add: rolloverOps_def rolloverValues_def)

text \<open>
  C6. \<open>convertOpsToValues\<close> returns an error, and so no \<open>Value\<close>, for every sequence with
  fewer than two records, or whose first record or last record is not a total record: the
  error about the number of operations, about the first operation, or about the last
  operation, in this order of precedence.
\<close>

theorem convertOpsToValues_boundary:
  assumes "length ops < 2 \<or> \<not> IsTotal (hd ops) \<or> \<not> IsTotal (last ops)"
  shows "convertOpsToValues ops =
           Inl (if length ops < 2 then NotEnoughOperations (length ops)
                else if \<not> IsTotal (hd ops) then FirstNotAccountRecord (hd ops)
                else LastNotAccountRecord (last ops))"
proof (cases "length ops < 2")
  case True
  then show ?thesis by (simp add: convertOpsToValues_def)
next
  case False
  then have ne: "ops \<noteq> []" by auto
  then have "hd ops = ops ! 0" "last ops = ops ! (length ops - 1)"
    by (simp_all add: hd_conv_nth last_conv_nth)
  with False assms show ?thesis by (auto simp: convertOpsToValues_def)
qed

theorem convertOpsToValues_boundary_witness:
  "\<not> IsTotal (hd (tl rolloverOps)) \<and>
   convertOpsToValues (tl rolloverOps) = Inl (FirstNotAccountRecord (hd (tl rolloverOps))) \<and>
   \<not> IsTotal (last (butlast rolloverOps)) \<and>
   convertOpsToValues (butlast rolloverOps) = Inl (LastNotAccountRecord (last (butlast rolloverOps))) \<and>
   convertOpsToValues [hd rolloverOps] = Inl (NotEnoughOperations 1)"
  using convertOpsToValues_boundary [of "tl rolloverOps"]
    convertOpsToValues_boundary [of "butlast rolloverOps"]
    convertOpsToValues_boundary [of "[hd rolloverOps]"]
  by (simp add: rolloverOps_def)

text \<open>
  C5. The date of a change record is resolved from the date of the preceding \<open>Value\<close>:
  the partial date is first read in the year of that date; when the date so read is
  before the preceding date, it is read again in the following year, and a result then
  has that following year and the same day and month; otherwise the first reading is the
  result. \<open>convertOpsToValues\<close> gives every change record the date so resolved from its
  predecessor. In particular \<open>02.01\<close> after 31.12.2020 is 2021-01-02.
\<close>

theorem resolveDate_year_transition:
  "(\<forall>date. time_Parse (opDate @ ''.'' @ decimal (year prev)) = Some date \<longrightarrow>
      year date = year prev \<and>
      (if After prev date
       then resolveDate prev opDate =
              (case time_Parse (opDate @ ''.'' @ decimal (year prev + 1)) of
                 None \<Rightarrow> Inl (TimeParseError (opDate @ ''.'' @ decimal (year prev + 1)))
               | Some date' \<Rightarrow> Inr date') \<and>
            (\<forall>date'. resolveDate prev opDate = Inr date' \<longrightarrow>
               year date' = year prev + 1 \<and> month date' = month date \<and> day date' = day date)
       else resolveDate prev opDate = Inr date)) \<and>
   (\<forall>vs i. convertOpsToValues ops = Inr vs \<and> 0 < i \<and> i < length ops \<and> \<not> IsTotal (ops ! i) \<longrightarrow>
      resolveDate (VDate (vs ! (i - 1))) (Date (ops ! i)) = Inr (VDate (vs ! i))) \<and>
   resolveDate \<lparr>year = 2020, month = 12, day = 31\<rparr> ''02.01'' =
     Inr \<lparr>year = 2021, month = 1, day = 2\<rparr>"
proof -
  have first: "year date = year prev \<and>
      (if After prev date
       then resolveDate prev opDate =
              (case time_Parse (opDate @ ''.'' @ decimal (year prev + 1)) of
                 None \<Rightarrow> Inl (TimeParseError (opDate @ ''.'' @ decimal (year prev + 1)))
               | Some date' \<Rightarrow> Inr date') \<and>
            (\<forall>date'. resolveDate prev opDate = Inr date' \<longrightarrow>
               year date' = year prev + 1 \<and> month date' = month date \<and> day date' = day date)
       else resolveDate prev opDate = Inr date)"
    if p: "time_Parse (opDate @ ''.'' @ decimal (year prev)) = Some date" for date
  proof -
    note r = time_Parse_resolved [OF p]
    show ?thesis
    proof (cases "After prev date")
      case False
      have "resolveDate prev opDate = Inr date"
        unfolding resolveDate_def Let_def p using False by simp
      with False r show ?thesis by simp
    next
      case True
      have eq: "resolveDate prev opDate =
              (case time_Parse (opDate @ ''.'' @ decimal (year prev + 1)) of
                 None \<Rightarrow> Inl (TimeParseError (opDate @ ''.'' @ decimal (year prev + 1)))
               | Some date' \<Rightarrow> Inr date')"
        unfolding resolveDate_def Let_def p using True by simp
      have same: "year date' = year prev + 1 \<and> month date' = month date \<and> day date' = day date"
        if "resolveDate prev opDate = Inr date'" for date'
      proof -
        from that have "time_Parse (opDate @ ''.'' @ decimal (year prev + 1)) = Some date'"
          unfolding eq by (cases "time_Parse (opDate @ ''.'' @ decimal (year prev + 1))") simp_all
        from time_Parse_resolved [OF this] r show ?thesis by simp
      qed
      from r have "year date = year prev" by simp
      moreover from same have "\<forall>date'. resolveDate prev opDate = Inr date' \<longrightarrow>
               year date' = year prev + 1 \<and> month date' = month date \<and> day date' = day date"
        by blast
      ultimately show ?thesis
        unfolding if_P [OF True] using eq by blast
    qed
  qed
  have second: "resolveDate (VDate (vs ! (i - 1))) (Date (ops ! i)) = Inr (VDate (vs ! i))"
    if a: "convertOpsToValues ops = Inr vs \<and> 0 < i \<and> i < length ops \<and> \<not> IsTotal (ops ! i)"
    for vs i
  proof -
    from a have loop: "convert_loop [] (Value (ops ! 0)) ops = Inr vs"
      by (auto simp: convertOpsToValues_def split: if_splits)
    have "([] :: AccountValue list) \<noteq> [] \<Longrightarrow> VValue (last []) = Value (ops ! 0)" by simp
    note inv = convert_loop_inv [OF loop this]
    then have "\<forall>i<length ops. 0 < length ([] :: AccountValue list) + i \<longrightarrow>
        valueStep (vs ! (length ([] :: AccountValue list) + i - 1)) (ops ! i)
          (vs ! (length ([] :: AccountValue list) + i))"
      by blast
    with a have "valueStep (vs ! (i - 1)) (ops ! i) (vs ! i)"
      by simp
    with a show ?thesis
      by (simp add: valueStep_def)
  qed
  have third: "resolveDate \<lparr>year = 2020, month = 12, day = 31\<rparr> ''02.01'' =
     Inr \<lparr>year = 2021, month = 1, day = 2\<rparr>"
    by (simp add: eval_simps)
  from first second third show ?thesis by blast
qed

theorem resolveDate_year_transition_witness:
  "time_Parse (''02.01'' @ ''.'' @ decimal (year \<lparr>year = 2020, month = 12, day = 31\<rparr>)) =
     Some \<lparr>year = 2020, month = 1, day = 2\<rparr> \<and>
   After \<lparr>year = 2020, month = 12, day = 31\<rparr> \<lparr>year = 2020, month = 1, day = 2\<rparr> \<and>
   resolveDate \<lparr>year = 2020, month = 12, day = 31\<rparr> ''02.01'' =
     Inr \<lparr>year = 2021, month = 1, day = 2\<rparr> \<and>
   convertOpsToValues rolloverOps = Inr rolloverValues \<and>
   0 < (1::nat) \<and> 1 < length rolloverOps \<and> \<not> IsTotal (rolloverOps ! 1) \<and>
   resolveDate (VDate (rolloverValues ! (1 - 1))) (Date (rolloverOps ! 1)) =
     Inr (VDate (rolloverValues ! 1))"
proof -
  note t = resolveDate_year_transition
    [of "''02.01''" "\<lparr>year = 2020, month = 12, day = 31\<rparr>" rolloverOps]
  have p: "time_Parse (''02.01'' @ ''.'' @ decimal (year \<lparr>year = 2020, month = 12, day = 31\<rparr>)) =
     Some \<lparr>year = 2020, month = 1, day = 2\<rparr>"
    by (simp add: eval_simps)
  have a: "After \<lparr>year = 2020, month = 12, day = 31\<rparr> \<lparr>year = 2020, month = 1, day = 2\<rparr>"
    by (simp add: After_def)
  from t have r: "resolveDate \<lparr>year = 2020, month = 12, day = 31\<rparr> ''02.01'' =
     Inr \<lparr>year = 2021, month = 1, day = 2\<rparr>"
    by (rule conjunct2 [THEN conjunct2])
  have h: "convertOpsToValues rolloverOps = Inr rolloverValues \<and> 0 < (1::nat) \<and>
           1 < length rolloverOps \<and> \<not> IsTotal (rolloverOps ! 1)"
    by (simp add: rolloverOps_converted) (simp add: rolloverOps_def)
  from t have "\<forall>vs i. convertOpsToValues rolloverOps = Inr vs \<and> 0 < i \<and> i < length rolloverOps \<and>
      \<not> IsTotal (rolloverOps ! i) \<longrightarrow>
      resolveDate (VDate (vs ! (i - 1))) (Date (rolloverOps ! i)) = Inr (VDate (vs ! i))"
    by (rule conjunct2 [THEN conjunct1])
  with h have "resolveDate (VDate (rolloverValues ! (1 - 1))) (Date (rolloverOps ! 1)) =
     Inr (VDate (rolloverValues ! 1))"
    by blast
  with p a r h show ?thesis by blast
qed

section \<open>The object graph walker\<close>

declare preorder.simps [simp del]

lemma visitAll_append:
  "visitAll callback (xs @ ys) s =
     (case visitAll callback xs s of
        (s', Some err) \<Rightarrow> (s', Some err)
      | (s', None) \<Rightarrow> visitAll callback ys s')"
proof (induction xs arbitrary: s)
  case Nil
  show ?case by simp
next
  case (Cons x xs)
  show ?case
  proof (cases "callback x s")
    case (Pair s' err)
    then show ?thesis by (cases err) (simp_all add: Cons.IH)
  qed
qed

lemma walkChildren_visits:
  assumes r: "\<And>cid child s. (cid, child) \<in> set kids \<Longrightarrow> cid \<notin> path \<Longrightarrow>
      rec child (insert cid path, s) =
        Some ((insert cid path, fst (visitAll callback (preorder api (insert cid path) child) s)),
              snd (visitAll callback (preorder api (insert cid path) child) s))"
  shows "walkChildren rec kids (path, s) =
           Some ((path, fst (visitAll callback (preorderChildren api path kids) s)),
                 snd (visitAll callback (preorderChildren api path kids) s))"
  using r
proof (induction kids arbitrary: s)
  case Nil
  show ?case by simp
next
  case (Cons kid kids)
  obtain cid child where kid: "kid = (cid, child)" by (cases kid) auto
  have ih: "walkChildren rec kids (path, s') =
           Some ((path, fst (visitAll callback (preorderChildren api path kids) s')),
                 snd (visitAll callback (preorderChildren api path kids) s'))" for s'
    by (rule Cons.IH) (rule Cons.prems, simp_all)
  show ?case
  proof (cases "cid \<in> path")
    case True
    then show ?thesis unfolding kid by (simp add: ih)
  next
    case False
    define res where "res = visitAll callback (preorder api (insert cid path) child) s"
    have call: "rec child (insert cid path, s) = Some ((insert cid path, fst res), snd res)"
      unfolding res_def by (rule Cons.prems) (simp_all add: kid False)
    have restore: "insert cid path - {cid} = path" using False by auto
    have va: "visitAll callback (preorderChildren api path ((cid, child) # kids)) s =
        (case res of (s', Some err) \<Rightarrow> (s', Some err)
                   | (s', None) \<Rightarrow> visitAll callback (preorderChildren api path kids) s')"
      using False by (simp add: visitAll_append res_def)
    show ?thesis
    proof (cases res)
      case (Pair s' err)
      show ?thesis
      proof (cases err)
        case None
        with Pair False call restore va show ?thesis unfolding kid by (simp add: ih)
      next
        case (Some e)
        with Pair False call restore va show ?thesis unfolding kid by simp
      qed
    qed
  qed
qed

lemma walkNode_visits:
  "card (- path) < fuel \<Longrightarrow>
     walkNode fuel api callback v (path, s) =
       Some ((path, fst (visitAll callback (preorder api path v) s)),
             snd (visitAll callback (preorder api path v) s))"
proof (induction fuel arbitrary: path v s)
  case 0
  then show ?case by simp
next
  case (Suc fuel)
  show ?case
  proof (cases "callback v s")
    case (Pair s' err)
    show ?thesis
    proof (cases err)
      case (Some e)
      with Pair show ?thesis by (simp add: preorder.simps)
    next
      case None
      have "walkChildren (walkNode fuel api callback) (children api v) (path, s') =
           Some ((path, fst (visitAll callback (preorderChildren api path (children api v)) s')),
                 snd (visitAll callback (preorderChildren api path (children api v)) s'))"
      proof (rule walkChildren_visits)
        fix cid child s0
        assume "cid \<notin> path"
        then have "- insert cid path \<subset> - path" by auto
        then have "card (- insert cid path) < card (- path)"
          by (rule psubset_card_mono [rotated]) simp
        with Suc.prems have "card (- insert cid path) < fuel" by simp
        then show "walkNode fuel api callback child (insert cid path, s0) =
           Some ((insert cid path, fst (visitAll callback (preorder api (insert cid path) child) s0)),
                 snd (visitAll callback (preorder api (insert cid path) child) s0))"
          by (rule Suc.IH)
      qed
      with Pair None show ?thesis by (simp add: preorder.simps)
    qed
  qed
qed

lemma card_word32: "card (UNIV :: 32 word set) = 4294967296"
  by (simp add: card_word)

lemma visitAll_first_failure:
  "visitAll callback vs s = (s', Some err) \<Longrightarrow>
     \<exists>before v after s0. vs = before @ v # after \<and> visitAll callback before s = (s0, None) \<and>
        callback v s0 = (s', Some err)"
proof (induction vs arbitrary: s)
  case Nil
  then show ?case by simp
next
  case (Cons x xs)
  show ?case
  proof (cases "callback x s")
    case (Pair s1 e1)
    show ?thesis
    proof (cases e1)
      case (Some e)
      with Pair Cons.prems have "callback x s = (s', Some err)" by simp
      then have "x # xs = [] @ x # xs \<and> visitAll callback [] s = (s, None) \<and>
                 callback x s = (s', Some err)" by simp
      then show ?thesis by blast
    next
      case None
      with Pair Cons.prems have "visitAll callback xs s1 = (s', Some err)" by simp
      from Cons.IH [OF this] obtain before v after s0 where
        b: "xs = before @ v # after" "visitAll callback before s1 = (s0, None)"
           "callback v s0 = (s', Some err)" by blast
      with Pair None have "x # xs = (x # before) @ v # after \<and>
          visitAll callback (x # before) s = (s0, None) \<and> callback v s0 = (s', Some err)"
        by simp
      then show ?thesis by blast
    qed
  qed
qed

lemmas walk_eval =
  preorder.simps children_def exampleGraph_def recordVisit_def failAt_def

lemma exampleGraph_preorder:
  "preorder exampleGraph {} 0 = [0, 1, 3, 4, 2, 3, 4]"
  "preorder exampleGraph {} 5 = [5, 5]"
  by (simp_all add: walk_eval upt_rec)

lemma exampleGraph_visits:
  "visitAll recordVisit [0, 1, 3, 4, 2, 3, 4] [] = ([0, 1, 3, 4, 2, 3, 4], None)"
  "visitAll recordVisit [5, 5] [] = ([5, 5], None)"
  "visitAll (failAt 3) [0, 1, 3, 4, 2, 3, 4] [] = ([0, 1, 3], Some ''failed'')"
  by (simp_all add: recordVisit_def failAt_def)

text \<open>
  C9. For every object graph, cyclic or not, and every callback, \<open>walk\<close> returns: fuel
  above the number of \<open>uint32\<close> identities is enough, whatever the graph. It has called
  the callback on the nodes of the traversal \<open>preorder\<close> in that order (a node before its
  children, a child left out when its identity is on the path from the root), up to and
  including the first node where the callback fails, and returns that error; without a
  failure it has called it on all of them. A shared node is visited once on every path
  that reaches it.
\<close>

theorem walk_terminates_preorder:
  "walk (4294967297 + k) api rootValue callback s =
     Some (visitAll callback (preorder api {} rootValue) s) \<and>
   (\<forall>s' err. visitAll callback (preorder api {} rootValue) s = (s', Some err) \<longrightarrow>
      (\<exists>before v after s0. preorder api {} rootValue = before @ v # after \<and>
         visitAll callback before s = (s0, None) \<and> callback v s0 = (s', Some err)))"
proof -
  have "card (- ({} :: 32 word set)) < 4294967297 + k" by (simp add: card_word32)
  from walkNode_visits [OF this, of api callback rootValue s]
  have "walk (4294967297 + k) api rootValue callback s =
     Some (visitAll callback (preorder api {} rootValue) s)"
    by (simp add: walk_def)
  with visitAll_first_failure [of callback "preorder api {} rootValue" s] show ?thesis
    by blast
qed

theorem walk_terminates_preorder_witness:
  "walk (4294967297 + 0) exampleGraph 0 recordVisit [] = Some ([0, 1, 3, 4, 2, 3, 4], None) \<and>
   walk (4294967297 + 0) exampleGraph 5 recordVisit [] = Some ([5, 5], None) \<and>
   walk (4294967297 + 0) exampleGraph 0 (failAt 3) [] = Some ([0, 1, 3], Some ''failed'') \<and>
   preorder exampleGraph {} 0 = [0, 1] @ 3 # [4, 2, 3, 4] \<and>
   visitAll (failAt 3) [0, 1] [] = ([0, 1], None) \<and>
   failAt 3 3 [0, 1] = ([0, 1, 3], Some ''failed'')"
proof -
  have a: "walk (4294967297 + 0) exampleGraph 0 recordVisit [] = Some ([0, 1, 3, 4, 2, 3, 4], None)"
    using walk_terminates_preorder [of 0 exampleGraph 0 recordVisit "[]"]
    by (simp only: exampleGraph_preorder exampleGraph_visits)
  have b: "walk (4294967297 + 0) exampleGraph 5 recordVisit [] = Some ([5, 5], None)"
    using walk_terminates_preorder [of 0 exampleGraph 5 recordVisit "[]"]
    by (simp only: exampleGraph_preorder exampleGraph_visits)
  have c: "walk (4294967297 + 0) exampleGraph 0 (failAt 3) [] = Some ([0, 1, 3], Some ''failed'')"
    using walk_terminates_preorder [of 0 exampleGraph 0 "failAt 3" "[]"]
    by (simp only: exampleGraph_preorder exampleGraph_visits)
  have d: "preorder exampleGraph {} 0 = [0, 1] @ 3 # [4, 2, 3, 4] \<and>
     visitAll (failAt 3) [0, 1] [] = ([0, 1], None) \<and>
     failAt 3 3 [0, 1] = ([0, 1, 3], Some ''failed'')"
    by (simp add: exampleGraph_preorder failAt_def)
  from a b c d show ?thesis by blast
qed


end
